theory Spec2Isabelle
  imports Main "HOL-Library.Finite_Map"
begin

section \<open>Data model (cube.ts, world.ts)\<close>

text \<open>
  A shallow embedding of \<^verbatim>\<open>batch/src/cube.ts\<close> and \<^verbatim>\<open>batch/src/world.ts\<close>.
  Grid coordinates are integers. The sparse two-dimensional array \<^verbatim>\<open>World.world\<close> of cells
  \<^verbatim>\<open>{cubeId: number | null}\<close> is a finite map from cells to cube ids: a cell that was never
  written, or whose \<^verbatim>\<open>cubeId\<close> is \<^verbatim>\<open>null\<close>, is absent from the map (\<^verbatim>\<open>getCell\<close> creates
  cells with \<^verbatim>\<open>cubeId: null\<close> on demand, which no caller can observe).
  A JavaScript \<^verbatim>\<open>throw new Error(...)\<close> is an \<open>Inl\<close> result. Dereferencing \<^verbatim>\<open>undefined\<close> or
  \<^verbatim>\<open>null\<close> (a cube id outside the cube list, a cell without cube where the source writes
  \<^verbatim>\<open>!\<close>) is the error \<open>TypeError\<close>.
\<close>

type_synonym Position = "int \<times> int"

datatype Color = Color int int int

definition BLUE :: Color where
  "BLUE = Color 68 187 248"

datatype ComponentStatus = LINK_CUT | LINK_STABLE | CHUNK_CUT | CHUNK_STABLE | CONNECTOR | NONE

text \<open>The class \<^verbatim>\<open>Cube\<close>; the field \<^verbatim>\<open>p\<close> is \<open>cube_p\<close>. The back reference to the world and the
  user-interface flag \<^verbatim>\<open>selected\<close> are left out.\<close>

record Cube =
  cube_p :: Position
  resetPosition :: Position
  color :: Color
  componentStatus :: ComponentStatus
  chunkId :: int
  onBoundary :: bool

text \<open>The constructor \<^verbatim>\<open>new Cube(world, p, color)\<close>.\<close>

definition newCube :: "Position \<Rightarrow> Color \<Rightarrow> Cube" where
  "newCube pp c = \<lparr>cube_p = pp, resetPosition = pp, color = c, componentStatus = NONE,
     chunkId = - 1, onBoundary = False\<rparr>"

record World =
  world :: "(Position, nat) fmap"
  cubes :: "Cube list"

definition emptyWorld :: World where
  "emptyWorld = \<lparr>world = fmempty, cubes = []\<rparr>"

datatype error =
  OccupiedCell | EmptyCell | NoSourceCube | NoMovePath | InvalidMove | BadVersion | TypeError

datatype MoveDirection = N | E | S | W | NW | NE | EN | ES | SE | SW | WS | WN

text \<open>The string value of each member of the enum \<^verbatim>\<open>MoveDirection\<close>.\<close>

fun dirString :: "MoveDirection \<Rightarrow> string" where
  "dirString N = ''N''"
| "dirString E = ''E''"
| "dirString S = ''S''"
| "dirString W = ''W''"
| "dirString NW = ''NW''"
| "dirString NE = ''NE''"
| "dirString EN = ''EN''"
| "dirString ES = ''ES''"
| "dirString SE = ''SE''"
| "dirString SW = ''SW''"
| "dirString WS = ''WS''"
| "dirString WN = ''WN''"

text \<open>\<^verbatim>\<open>Object.keys(MoveDirection)\<close>: the members in declaration order.\<close>

definition allDirections :: "MoveDirection list" where
  "allDirections = [N, E, S, W, NW, NE, EN, ES, SE, SW, WS, WN]"

text \<open>The class \<^verbatim>\<open>Move\<close>; the world it refers to is passed to each operation.\<close>

record Move =
  position :: Position
  direction :: MoveDirection

section \<open>Grid store\<close>

definition getCubeId :: "World \<Rightarrow> Position \<Rightarrow> nat option" where
  "getCubeId w pp = fmlookup (world w) pp"

text \<open>\<^verbatim>\<open>this.cubes[id]\<close> is \<^verbatim>\<open>undefined\<close> when \<open>id\<close> is outside the list; \<open>None\<close> stands for
  both \<^verbatim>\<open>null\<close> and \<^verbatim>\<open>undefined\<close>.\<close>

definition getCube :: "World \<Rightarrow> Position \<Rightarrow> Cube option" where
  "getCube w pp =
     (case getCubeId w pp of
        None \<Rightarrow> None
      | Some i \<Rightarrow> if i < length (cubes w) then Some (cubes w ! i) else None)"

definition hasCube :: "World \<Rightarrow> Position \<Rightarrow> bool" where
  "hasCube w pp = (getCube w pp \<noteq> None)"

text \<open>\<^verbatim>\<open>addCubeUnmarked\<close>; the cube it returns is the last one of the new cube list.\<close>

definition addCubeUnmarked :: "World \<Rightarrow> Position \<Rightarrow> Color \<Rightarrow> error + World" where
  "addCubeUnmarked w pp c =
     (if hasCube w pp then Inl OccupiedCell
      else Inr (w\<lparr>world := fmupd pp (length (cubes w)) (world w),
                  cubes := cubes w @ [newCube pp c]\<rparr>))"

definition moveCubeUnmarked :: "World \<Rightarrow> Position \<Rightarrow> Position \<Rightarrow> error + World" where
  "moveCubeUnmarked w from to =
     (if \<not> hasCube w from then Inl EmptyCell
      else if hasCube w to then Inl OccupiedCell
      else (case getCubeId w from of
              None \<Rightarrow> Inl TypeError
            | Some i \<Rightarrow>
                Inr (w\<lparr>world := fmupd to i (fmdrop from (world w)),
                        cubes := (cubes w)[i := (cubes w ! i)\<lparr>cube_p := to\<rparr>]\<rparr>)))"

text \<open>The loop of \<^verbatim>\<open>removeCubeUnmarked\<close> that rewrites the cube ids after the list was
  compacted.\<close>

definition reindex :: "Cube list \<Rightarrow> (Position, nat) fmap \<Rightarrow> (Position, nat) fmap" where
  "reindex cs m = fold (\<lambda>i m'. fmupd (cube_p (cs ! i)) i m') [0..<length cs] m"

text \<open>\<^verbatim>\<open>removeCubeUnmarked\<close>. The filter \<^verbatim>\<open>b !== cube\<close> compares object identities; every entry
  of \<^verbatim>\<open>cubes\<close> is an object of its own (only \<^verbatim>\<open>addCubeUnmarked\<close> pushes, always a fresh one), so
  the filter drops exactly the entry at the index of the cube.\<close>

definition removeCubeUnmarked :: "World \<Rightarrow> Position \<Rightarrow> error + World" where
  "removeCubeUnmarked w pp =
     (if \<not> hasCube w pp then Inl EmptyCell
      else (case getCubeId w pp of
              None \<Rightarrow> Inl TypeError
            | Some i \<Rightarrow>
                (let cs = take i (cubes w) @ drop (Suc i) (cubes w)
                 in Inr (w\<lparr>world := reindex cs (fmdrop pp (world w)), cubes := cs\<rparr>))))"

text \<open>\<^verbatim>\<open>hasNeighbors\<close>: the object with the eight keys; any other key reads \<^verbatim>\<open>undefined\<close>,
  which is falsy.\<close>

definition hasNeighbors :: "World \<Rightarrow> Position \<Rightarrow> string \<Rightarrow> bool" where
  "hasNeighbors w pp key =
     (case pp of (x, y) \<Rightarrow>
        if key = ''N'' then hasCube w (x, y + 1)
        else if key = ''NE'' then hasCube w (x + 1, y + 1)
        else if key = ''E'' then hasCube w (x + 1, y)
        else if key = ''SE'' then hasCube w (x + 1, y - 1)
        else if key = ''S'' then hasCube w (x, y - 1)
        else if key = ''SW'' then hasCube w (x - 1, y - 1)
        else if key = ''W'' then hasCube w (x - 1, y)
        else if key = ''NW'' then hasCube w (x - 1, y + 1)
        else False)"

section \<open>Move model\<close>

fun stepChar :: "char \<Rightarrow> Position \<Rightarrow> Position" where
  "stepChar ch (x, y) =
     (if ch = CHR ''N'' then (x, y + 1)
      else if ch = CHR ''S'' then (x, y - 1)
      else if ch = CHR ''E'' then (x + 1, y)
      else if ch = CHR ''W'' then (x - 1, y)
      else (x, y))"

definition targetPositionFromFields :: "Position \<Rightarrow> string \<Rightarrow> Position" where
  "targetPositionFromFields pp d = fold stepChar d pp"

definition sourcePosition :: "Move \<Rightarrow> Position" where
  "sourcePosition m = position m"

definition targetPosition :: "Move \<Rightarrow> Position" where
  "targetPosition m = targetPositionFromFields (position m) (dirString (direction m))"

definition isValidIgnoreConnectivity :: "World \<Rightarrow> Move \<Rightarrow> bool" where
  "isValidIgnoreConnectivity w m =
     (if getCube w (targetPosition m) \<noteq> None then False
      else (let has = hasNeighbors w (position m) in
        case direction m of
          N \<Rightarrow> (has ''W'' \<and> has ''NW'') \<or> (has ''E'' \<and> has ''NE'')
        | E \<Rightarrow> (has ''N'' \<and> has ''NE'') \<or> (has ''S'' \<and> has ''SE'')
        | S \<Rightarrow> (has ''W'' \<and> has ''SW'') \<or> (has ''E'' \<and> has ''SE'')
        | W \<Rightarrow> (has ''N'' \<and> has ''NW'') \<or> (has ''S'' \<and> has ''SW'')
        | d \<Rightarrow> \<not> has [dirString d ! 0] \<and> has [dirString d ! 1]))"

section \<open>Connectivity\<close>

text \<open>JavaScript arrays of booleans: a read outside the array is \<^verbatim>\<open>undefined\<close> (falsy), a write
  outside extends the array.\<close>

definition arrGet :: "bool list \<Rightarrow> nat \<Rightarrow> bool" where
  "arrGet xs i = (i < length xs \<and> xs ! i)"

definition arrSet :: "bool list \<Rightarrow> nat \<Rightarrow> bool list" where
  "arrSet xs i =
     (if i < length xs then xs[i := True]
      else xs @ replicate (i - length xs) False @ [True])"

text \<open>The four cells read by the searches, in the order of the source: west, east, south,
  north.\<close>

definition neighborCells :: "Position \<Rightarrow> Position list" where
  "neighborCells pp = (case pp of (x, y) \<Rightarrow> [(x - 1, y), (x + 1, y), (x, y - 1), (x, y + 1)])"

text \<open>\<^verbatim>\<open>if (c.cubeId) queue.push(c.cubeId)\<close>: both \<^verbatim>\<open>null\<close> and the id \<open>0\<close> are falsy.\<close>

definition truthyIds :: "World \<Rightarrow> Position list \<Rightarrow> nat list" where
  "truthyIds w ps = concat (map (\<lambda>q. case getCubeId w q of
       None \<Rightarrow> [] | Some i \<Rightarrow> if i = 0 then [] else [i]) ps)"

definition unseenCount :: "nat \<Rightarrow> bool list \<Rightarrow> nat" where
  "unseenCount n seen = card {i. i < n \<and> \<not> arrGet seen i}"

lemma arrGet_arrSet: "arrGet (arrSet xs i) j = (j = i \<or> arrGet xs j)"
  by (auto simp: arrGet_def arrSet_def nth_append nth_list_update)

lemma unseenCount_arrSet_less:
  assumes "i < n" "\<not> arrGet seen i"
  shows "unseenCount n (arrSet seen i) < unseenCount n seen"
proof -
  have "{j. j < n \<and> \<not> arrGet (arrSet seen i) j} \<subset> {j. j < n \<and> \<not> arrGet seen j}"
    using assms by (auto simp: arrGet_arrSet)
  then show ?thesis
    unfolding unseenCount_def by (intro psubset_card_mono) auto
qed

text \<open>The \<^verbatim>\<open>while (queue.length !== 0)\<close> loop of \<^verbatim>\<open>isConnected\<close>.\<close>

function isConnectedLoop :: "World \<Rightarrow> bool list \<Rightarrow> nat \<Rightarrow> nat list \<Rightarrow> error + nat" where
  "isConnectedLoop w seen seenCount [] = Inr seenCount"
| "isConnectedLoop w seen seenCount (cubeId # queue) =
     (if arrGet seen cubeId then isConnectedLoop w seen seenCount queue
      else if \<not> cubeId < length (cubes w) then Inl TypeError
      else isConnectedLoop w (arrSet seen cubeId) (seenCount + 1)
             (queue @ truthyIds w (neighborCells (cube_p (cubes w ! cubeId)))))"
  by pat_completeness auto
termination
  by (relation "measures [\<lambda>(w, seen, c, q). unseenCount (length (cubes w)) seen,
                          \<lambda>(w, seen, c, q). length q]")
     (auto simp: unseenCount_arrSet_less)

definition isConnected :: "World \<Rightarrow> Position option \<Rightarrow> error + bool" where
  "isConnected w skip =
     (if cubes w = [] then Inr True
      else
        (let seen = replicate (length (cubes w)) False;
             skipIndex = (case skip of None \<Rightarrow> None | Some s \<Rightarrow> getCubeId w s);
             seen' = (case skipIndex of None \<Rightarrow> seen | Some i \<Rightarrow> arrSet seen i);
             seenCount = (case skipIndex of None \<Rightarrow> 0 | Some i \<Rightarrow> 1);
             queue = (if skipIndex = Some 0 \<and> length (cubes w) > 1 then [1] else [0])
         in case isConnectedLoop w seen' seenCount queue of
              Inl e \<Rightarrow> Inl e
            | Inr n \<Rightarrow> Inr (length (cubes w) = n)))"

definition isValid :: "World \<Rightarrow> Move \<Rightarrow> error + bool" where
  "isValid w m =
     (if \<not> isValidIgnoreConnectivity w m then Inr False
      else (case isConnected w (Some (position m)) of
              Inl e \<Rightarrow> Inl e
            | Inr c \<Rightarrow> if \<not> c then Inr False else Inr True))"

definition validMovesFrom :: "World \<Rightarrow> Position \<Rightarrow> error + Move list" where
  "validMovesFrom w pp =
     (case isConnected w (Some pp) of
        Inl e \<Rightarrow> Inl e
      | Inr c \<Rightarrow>
          if \<not> c then Inr []
          else Inr (filter (isValidIgnoreConnectivity w)
                      (map (\<lambda>d. \<lparr>position = pp, direction = d\<rparr>) allDirections)))"

section \<open>Outside traversal\<close>

text \<open>\<^verbatim>\<open>Array.prototype.min\<close> on a list with at least one element (for the empty list the source
  yields \<^verbatim>\<open>Infinity\<close>; \<^verbatim>\<open>downmostLeftmost\<close> never asks for it).\<close>

fun listMin :: "int list \<Rightarrow> int" where
  "listMin [] = 0"
| "listMin (x # xs) = fold min xs x"

text \<open>\<^verbatim>\<open>downmostLeftmost\<close>, as the cell it looks up: the result of the source is the cube found
  at this cell.\<close>

definition downmostLeftmostCell :: "World \<Rightarrow> Position" where
  "downmostLeftmostCell w =
     (let lowestY = listMin (map (\<lambda>c. snd (cube_p c)) (cubes w));
          lowestX = listMin (map (\<lambda>c. fst (cube_p c))
                       (filter (\<lambda>c. snd (cube_p c) = lowestY) (cubes w)))
      in (lowestX, lowestY))"

definition downmostLeftmost :: "World \<Rightarrow> Cube option" where
  "downmostLeftmost w =
     (if cubes w = [] then None else getCube w (downmostLeftmostCell w))"

text \<open>The table \<^verbatim>\<open>bends\<close> of \<^verbatim>\<open>nextOnOutside\<close>; any other key is \<^verbatim>\<open>undefined\<close>.\<close>

definition bends :: "string \<Rightarrow> string list option" where
  "bends d =
     (if d = ''N'' then Some [''E'', ''N'', ''W'', ''S'']
      else if d = ''E'' then Some [''S'', ''E'', ''N'', ''W'']
      else if d = ''S'' then Some [''W'', ''S'', ''E'', ''N'']
      else if d = ''W'' then Some [''N'', ''W'', ''S'', ''E'']
      else None)"

definition nextOnOutside :: "World \<Rightarrow> Position \<Rightarrow> string \<Rightarrow> error + string option" where
  "nextOnOutside w pp d =
     (case bends d of
        None \<Rightarrow> Inl TypeError
      | Some ds \<Rightarrow> Inr (find (hasNeighbors w pp) ds))"

text \<open>The \<^verbatim>\<open>switch (direction)\<close> at the end of the loop body of \<^verbatim>\<open>outsideCubes\<close>.\<close>

definition walkStep :: "string \<Rightarrow> Position \<Rightarrow> Position" where
  "walkStep d pp =
     (case pp of (x, y) \<Rightarrow>
        if d = ''N'' then (x, y + 1)
        else if d = ''E'' then (x + 1, y)
        else if d = ''S'' then (x, y - 1)
        else if d = ''W'' then (x - 1, y)
        else (x, y))"

text \<open>All edges the walk can ever add to \<^verbatim>\<open>edgesSeen\<close>.\<close>

definition allEdges :: "World \<Rightarrow> (Position \<times> string) set" where
  "allEdges w = (cube_p ` set (cubes w)) \<times> {''N'', ''E'', ''S'', ''W''}"

lemma finite_allEdges: "finite (allEdges w)"
  by (simp add: allEdges_def)

lemma nextOnOutside_dir:
  assumes "nextOnOutside w pp d = Inr (Some d')"
  shows "d' \<in> {''N'', ''E'', ''S'', ''W''}"
proof -
  from assms obtain ds where ds: "bends d = Some ds" and f: "find (hasNeighbors w pp) ds = Some d'"
    by (auto simp: nextOnOutside_def split: option.splits)
  from f have "d' \<in> set ds"
    by (auto simp: find_Some_iff)
  with ds show ?thesis
    by (auto simp: bends_def split: if_splits)
qed

lemma outsideLoop_measure:
  assumes "i < length (cubes w)" "nextOnOutside w pos d = Inr (Some d')"
    and "(cube_p (cubes w ! i), d') \<notin> set edgesSeen"
  shows "card (allEdges w - insert (cube_p (cubes w ! i), d') (set edgesSeen))
           < card (allEdges w - set edgesSeen)"
proof -
  have "d' \<in> {''N'', ''E'', ''S'', ''W''}"
    using assms(2) by (rule nextOnOutside_dir)
  moreover have "cubes w ! i \<in> set (cubes w)"
    using assms(1) by simp
  ultimately have "(cube_p (cubes w ! i), d') \<in> allEdges w"
    unfolding allEdges_def by blast
  with assms(3)
  have "allEdges w - insert (cube_p (cubes w ! i), d') (set edgesSeen)
          \<subset> allEdges w - set edgesSeen"
    by auto
  then show ?thesis
    by (intro psubset_card_mono) (auto simp: finite_allEdges)
qed

text \<open>The \<^verbatim>\<open>while (true)\<close> loop of \<^verbatim>\<open>outsideCubes\<close>. A reference to a cube object is its index
  in \<^verbatim>\<open>cubes\<close>; the loop returns the references pushed to \<^verbatim>\<open>outside\<close> together with the final
  \<^verbatim>\<open>edgesSeen\<close> (a set that keeps insertion order; the key string of an edge is the triple
  of its two coordinates and its direction). Where \<^verbatim>\<open>getCube(position)!\<close> finds no cube the
  model stops with \<open>TypeError\<close> at once; the source does so when it reads \<^verbatim>\<open>cube.p\<close>, or hands
  the \<^verbatim>\<open>null\<close> entry to its callers, which dereference it.\<close>

function outsideLoop ::
  "World \<Rightarrow> Position \<Rightarrow> string \<Rightarrow> nat list \<Rightarrow> (Position \<times> string) list
     \<Rightarrow> error + (nat list \<times> (Position \<times> string) list)" where
  "outsideLoop w pos d outside edgesSeen =
     (case getCubeId w pos of
        None \<Rightarrow> Inl TypeError
      | Some i \<Rightarrow>
          if \<not> i < length (cubes w) then Inl TypeError
          else
            (case nextOnOutside w pos d of
               Inl e \<Rightarrow> Inl e
             | Inr None \<Rightarrow> Inr (outside @ [i], edgesSeen)
             | Inr (Some d') \<Rightarrow>
                 (let newEdge = (cube_p (cubes w ! i), d') in
                  if newEdge \<in> set edgesSeen then Inr (outside @ [i], edgesSeen)
                  else outsideLoop w (walkStep d' pos) d' (outside @ [i])
                         (edgesSeen @ [newEdge]))))"
  by pat_completeness auto
termination
  by (relation "measure (\<lambda>(w, pos, d, outside, edgesSeen). card (allEdges w - set edgesSeen))")
     (auto simp: outsideLoop_measure)

definition outsideWalk :: "World \<Rightarrow> error + (nat list \<times> (Position \<times> string) list)" where
  "outsideWalk w =
     (if cubes w = [] then Inr ([], [])
      else outsideLoop w (downmostLeftmostCell w) ''S'' [] [])"

definition outsideCubes :: "World \<Rightarrow> error + Cube list" where
  "outsideCubes w =
     (case outsideWalk w of
        Inl e \<Rightarrow> Inl e
      | Inr (ids, edges) \<Rightarrow> Inr (map (\<lambda>i. cubes w ! i) ids))"

section \<open>Cut cubes\<close>

text \<open>The five arrays that \<^verbatim>\<open>findCubeStabilityRecursive\<close> shares between its calls.\<close>

record DfsArrays =
  dfsSeen :: "bool list"
  dfsParent :: "nat option list"
  dfsDepth :: "int list"
  dfsLow :: "int list"
  dfsStable :: "bool list"

text \<open>\<^verbatim>\<open>findCubeStabilityRecursive\<close> with the body of its \<^verbatim>\<open>neighbors.forEach\<close> as a second
  function over the cube ids of the cells still to be looked at; \<^verbatim>\<open>cutCube\<close> and
  \<^verbatim>\<open>childCount\<close> are the two local variables the callback updates.\<close>

function findCubeStabilityRecursive :: "World \<Rightarrow> nat \<Rightarrow> int \<Rightarrow> DfsArrays \<Rightarrow> error + DfsArrays"
  and visitNeighbors ::
    "World \<Rightarrow> nat \<Rightarrow> int \<Rightarrow> nat option list \<Rightarrow> bool \<Rightarrow> nat \<Rightarrow> DfsArrays
       \<Rightarrow> error + (bool \<times> nat \<times> DfsArrays)" where
  "findCubeStabilityRecursive w i d a =
     (if \<not> i < length (cubes w) then Inl TypeError
      else
        (case visitNeighbors w i d (map (getCubeId w) (neighborCells (cube_p (cubes w ! i))))
                False 0
                (a\<lparr>dfsSeen := arrSet (dfsSeen a) i, dfsDepth := (dfsDepth a)[i := d],
                   dfsLow := (dfsLow a)[i := d]\<rparr>) of
           Inl e \<Rightarrow> Inl e
         | Inr (cutCube, childCount, a') \<Rightarrow>
             Inr (a'\<lparr>dfsStable := (dfsStable a')[i :=
                    (if dfsParent a' ! i = None then childCount \<le> 1 else \<not> cutCube)]\<rparr>)))"
| "visitNeighbors w i d [] cutCube childCount a = Inr (cutCube, childCount, a)"
| "visitNeighbors w i d (c # cs) cutCube childCount a =
     (case c of
        None \<Rightarrow> visitNeighbors w i d cs cutCube childCount a
      | Some j \<Rightarrow>
          if \<not> arrGet (dfsSeen a) j then
            (case findCubeStabilityRecursive w j (d + 1)
                    (a\<lparr>dfsParent := (dfsParent a)[j := Some i]\<rparr>) of
               Inl e \<Rightarrow> Inl e
             | Inr a' \<Rightarrow>
                 visitNeighbors w i d cs (cutCube \<or> dfsLow a' ! j \<ge> dfsDepth a' ! i)
                   (childCount + 1)
                   (a'\<lparr>dfsLow := (dfsLow a')[i := min (dfsLow a' ! i) (dfsLow a' ! j)]\<rparr>))
          else if Some j \<noteq> dfsParent a ! i then
            visitNeighbors w i d cs cutCube childCount
              (a\<lparr>dfsLow := (dfsLow a)[i := min (dfsLow a ! i) (dfsDepth a ! j)]\<rparr>)
          else visitNeighbors w i d cs cutCube childCount a)"
  by pat_completeness auto

lemma unseenCount_arrSet_le: "unseenCount n (arrSet seen i) \<le> unseenCount n seen"
  unfolding unseenCount_def by (intro card_mono) (auto simp: arrGet_arrSet)

lemma dfs_unseen:
  "findCubeStabilityRecursive_visitNeighbors_dom (Inl (w, i, d, a)) \<Longrightarrow>
     findCubeStabilityRecursive w i d a = Inr a' \<Longrightarrow>
     unseenCount (length (cubes w)) (dfsSeen a') \<le> unseenCount (length (cubes w)) (arrSet (dfsSeen a) i)"
  "findCubeStabilityRecursive_visitNeighbors_dom (Inr (w, i, d, cs, cutCube, childCount, a)) \<Longrightarrow>
     visitNeighbors w i d cs cutCube childCount a = Inr (cut', cc', a') \<Longrightarrow>
     unseenCount (length (cubes w)) (dfsSeen a') \<le> unseenCount (length (cubes w)) (dfsSeen a)"
proof (induction w i d a and w i d cs cutCube childCount a arbitrary: a' and cut' cc' a'
    rule: findCubeStabilityRecursive_visitNeighbors.pinduct)
  case (1 w i d a)
  then show ?case
    by (auto simp: findCubeStabilityRecursive.psimps split: if_splits sum.splits prod.splits)
next
  case (2 w i d cutCube childCount a)
  then show ?case by (simp add: visitNeighbors.psimps)
next
  case (3 w i d c cs cutCube childCount a)
  note psimp = visitNeighbors.psimps(2)[OF "3.hyps"]
  show ?case
  proof (cases c)
    case None
    have "visitNeighbors w i d cs cutCube childCount a = Inr (cut', cc', a')"
      using "3.prems" psimp None by simp
    then show ?thesis
      using "3.IH"(1)[OF None] by blast
  next
    case (Some j)
    show ?thesis
    proof (cases "arrGet (dfsSeen a) j")
      case False
      let ?a1 = "a\<lparr>dfsParent := (dfsParent a)[j := Some i]\<rparr>"
      from "3.prems" psimp Some False obtain b where
        rec: "findCubeStabilityRecursive w j (d + 1) ?a1 = Inr b" and
        rest: "visitNeighbors w i d cs (cutCube \<or> dfsLow b ! j \<ge> dfsDepth b ! i) (childCount + 1)
                 (b\<lparr>dfsLow := (dfsLow b)[i := min (dfsLow b ! i) (dfsLow b ! j)]\<rparr>)
               = Inr (cut', cc', a')"
        by (auto split: sum.splits)
      have "unseenCount (length (cubes w)) (dfsSeen b)
              \<le> unseenCount (length (cubes w)) (arrSet (dfsSeen ?a1) j)"
        using "3.IH"(2)[OF Some False rec] .
      also have "\<dots> \<le> unseenCount (length (cubes w)) (dfsSeen a)"
        by (simp add: unseenCount_arrSet_le)
      finally have 1: "unseenCount (length (cubes w)) (dfsSeen b)
              \<le> unseenCount (length (cubes w)) (dfsSeen a)" .
      have "unseenCount (length (cubes w)) (dfsSeen a') \<le> unseenCount (length (cubes w)) (dfsSeen b)"
        using "3.IH"(3)[OF Some False rec rest] by simp
      with 1 show ?thesis by simp
    next
      case True
      show ?thesis
      proof (cases "Some j \<noteq> dfsParent a ! i")
        case neq: True
        have "visitNeighbors w i d cs cutCube childCount
                (a\<lparr>dfsLow := (dfsLow a)[i := min (dfsLow a ! i) (dfsDepth a ! j)]\<rparr>)
              = Inr (cut', cc', a')"
          using "3.prems" psimp Some True neq by simp
        then show ?thesis
          using "3.IH"(4)[OF Some _ neq] True by fastforce
      next
        case eq: False
        have "visitNeighbors w i d cs cutCube childCount a = Inr (cut', cc', a')"
          using "3.prems" psimp Some True eq by simp
        then show ?thesis
          using "3.IH"(5)[OF Some _ eq] True by fastforce
      qed
    qed
  qed
qed

lemma dfs_unseen_le:
  assumes "findCubeStabilityRecursive_visitNeighbors_dom (Inl (w, i, d, a))"
    and "findCubeStabilityRecursive w i d a = Inr a'"
  shows "unseenCount (length (cubes w)) (dfsSeen a') \<le> unseenCount (length (cubes w)) (dfsSeen a)"
  using dfs_unseen(1)[OF assms] unseenCount_arrSet_le[of "length (cubes w)" "dfsSeen a" i]
  by simp

lemma length_neighborCells: "length (neighborCells pp) = 4"
  by (simp add: neighborCells_def split: prod.splits)

termination findCubeStabilityRecursive
proof (relation "measures [\<lambda>x. case x of
             Inl (w, i, d, a) \<Rightarrow> unseenCount (length (cubes w)) (arrSet (dfsSeen a) i)
           | Inr (w, i, d, cs, ct, cc, a) \<Rightarrow> unseenCount (length (cubes w)) (dfsSeen a),
         \<lambda>x. case x of Inl (w, i, d, a) \<Rightarrow> if i < length (cubes w) then 5 else 0
           | Inr (w, i, d, cs, ct, cc, a) \<Rightarrow> length cs]", goal_cases)
  case 1
  then show ?case by simp
next
  case 2
  then show ?case by (simp add: length_neighborCells)
next
  case 3
  then show ?case by simp
next
  case (4 w i d c cs cutCube childCount a j)
  then show ?case
    using unseenCount_arrSet_less[of j "length (cubes w)" "dfsSeen a"]
      unseenCount_arrSet_le[of "length (cubes w)" "dfsSeen a" j]
    by (cases "j < length (cubes w)") auto
next
  case (5 w i d c cs cutCube childCount a j b)
  then show ?case
    using dfs_unseen_le[of w j "d + 1" "a\<lparr>dfsParent := (dfsParent a)[j := Some i]\<rparr>" b]
    by auto
next
  case 6
  then show ?case by simp
next
  case 7
  then show ?case by simp
qed


definition findCubeStability :: "World \<Rightarrow> error + bool list" where
  "findCubeStability w =
     (if cubes w = [] then Inr []
      else
        (let n = length (cubes w) in
         case findCubeStabilityRecursive w 0 0
                \<lparr>dfsSeen = replicate n False, dfsParent = replicate n None,
                 dfsDepth = replicate n (- 1), dfsLow = replicate n (- 1),
                 dfsStable = replicate n True\<rparr> of
           Inl e \<Rightarrow> Inl e
         | Inr a \<Rightarrow> Inr (dfsStable a)))"

section \<open>Components\<close>

text \<open>A loop whose body may fail.\<close>

fun foldE :: "('a \<Rightarrow> 's \<Rightarrow> error + 's) \<Rightarrow> 'a list \<Rightarrow> 's \<Rightarrow> error + 's" where
  "foldE f [] s = Inr s"
| "foldE f (x # xs) s = (case f x s of Inl e \<Rightarrow> Inl e | Inr s' \<Rightarrow> foldE f xs s')"

definition degree :: "World \<Rightarrow> Cube \<Rightarrow> nat" where
  "degree w c =
     (let has = hasNeighbors w (cube_p c) in
      (if has ''N'' then 1 else 0) + (if has ''E'' then 1 else 0)
        + (if has ''S'' then 1 else 0) + (if has ''W'' then 1 else 0))"

definition getOneNeighbor :: "World \<Rightarrow> Cube \<Rightarrow> Cube option" where
  "getOneNeighbor w c =
     (case cube_p c of (x, y) \<Rightarrow>
        (case getCube w (x + 1, y) of Some nb \<Rightarrow> Some nb | None \<Rightarrow>
        (case getCube w (x - 1, y) of Some nb \<Rightarrow> Some nb | None \<Rightarrow>
        (case getCube w (x, y + 1) of Some nb \<Rightarrow> Some nb | None \<Rightarrow>
         getCube w (x, y - 1)))))"

text \<open>The stack of \<^verbatim>\<open>findComponents\<close> is a list whose head is the top: \<^verbatim>\<open>stack[stack.length - 1]\<close>
  is the head and \<^verbatim>\<open>stack[stack.length - 2]\<close> the element after it.

  The inner loop \<^verbatim>\<open>while (stack.length > 1 && stack[stack.length - 1] !== cubeId)\<close>.\<close>

fun popChunk ::
  "nat \<Rightarrow> int \<Rightarrow> nat list \<Rightarrow> int list \<Rightarrow> int list \<Rightarrow> nat list \<times> int list \<times> int list" where
  "popChunk cubeId chunksSeen (t # t' # rest) components chunkIds =
     (if t \<noteq> cubeId
      then popChunk cubeId chunksSeen (t' # rest)
             (components[t := (if components ! t \<noteq> - 1 then 3 else 2)])
             (chunkIds[t := chunksSeen])
      else (t # t' # rest, components, chunkIds))"
| "popChunk cubeId chunksSeen stack components chunkIds = (stack, components, chunkIds)"

text \<open>One pass of the loop over \<^verbatim>\<open>outside\<close>. The state is \<^verbatim>\<open>seen\<close>, \<^verbatim>\<open>stack\<close>, \<^verbatim>\<open>chunksSeen\<close>,
  \<^verbatim>\<open>components\<close> and \<^verbatim>\<open>chunkIds\<close>. Where \<^verbatim>\<open>getCubeId(cube.p)!\<close> is \<^verbatim>\<open>null\<close> or no index of
  \<^verbatim>\<open>cubes\<close> the model stops with \<open>TypeError\<close>.\<close>

definition componentsStep ::
  "World \<Rightarrow> Cube \<Rightarrow> bool list \<times> nat list \<times> int \<times> int list \<times> int list
     \<Rightarrow> error + (bool list \<times> nat list \<times> int \<times> int list \<times> int list)" where
  "componentsStep w cube st =
     (case st of (seen, stack, chunksSeen, components, chunkIds) \<Rightarrow>
      (case getCubeId w (cube_p cube) of
         None \<Rightarrow> Inl TypeError
       | Some cubeId \<Rightarrow>
           if \<not> cubeId < length (cubes w) then Inl TypeError
           else if \<not> arrGet seen cubeId then
             Inr (arrSet seen cubeId, cubeId # stack, chunksSeen, components, chunkIds)
           else if length stack \<ge> 2 \<and> stack ! 1 = cubeId then
             (let cId = hd stack;
                  components1 = (if components ! cId = - 1
                                 then components[cId := 1] else components);
                  components2 = (if components1 ! cubeId = - 1
                                 then components1[cubeId := 1] else components1)
              in Inr (seen, tl stack, chunksSeen, components2, chunkIds))
           else
             (case popChunk cubeId chunksSeen stack components chunkIds of
                (stack', components', chunkIds') \<Rightarrow>
                  (case stack' of
                     [] \<Rightarrow> Inr (seen, stack', chunksSeen + 1, components', chunkIds')
                   | cId # rest \<Rightarrow>
                       Inr (seen, stack', chunksSeen + 1,
                            components'[cId := (if length stack' > 1 then 3 else 2)],
                            chunkIds'[cId := chunksSeen])))))"

text \<open>One pass of the last loop of \<^verbatim>\<open>findComponents\<close> (``mark loose squares as part of a
  chunk''). A read of \<^verbatim>\<open>components\<close> at \<^verbatim>\<open>null\<close> or outside the array is \<^verbatim>\<open>undefined\<close>, which
  equals neither 1 nor 3.\<close>

definition componentAt :: "World \<Rightarrow> int list \<Rightarrow> Position \<Rightarrow> int option" where
  "componentAt w components pp =
     (case getCubeId w pp of
        None \<Rightarrow> None
      | Some k \<Rightarrow> if k < length components then Some (components ! k) else None)"

definition looseStep ::
  "World \<Rightarrow> nat \<Rightarrow> int list \<times> int list \<Rightarrow> error + (int list \<times> int list)" where
  "looseStep w i st =
     (case st of (components, chunkIds) \<Rightarrow>
      if components ! i = 1 \<and> degree w (cubes w ! i) = 1 then
        (case getOneNeighbor w (cubes w ! i) of
           None \<Rightarrow> Inl TypeError
         | Some neighbor \<Rightarrow>
             if componentAt w components (cube_p neighbor) = Some 3 then
               (case getCubeId w (cube_p neighbor) of
                  None \<Rightarrow> Inl TypeError
                | Some neighborIndex \<Rightarrow>
                    (let components1 = components[i := 2];
                         chunkIds1 = chunkIds[i := chunkIds ! neighborIndex];
                         cs = map (getCube w) (neighborCells (cube_p neighbor));
                         shouldRemoveConnector =
                           (\<not> (\<exists>c \<in> set cs. case c of None \<Rightarrow> False
                                  | Some c' \<Rightarrow> componentAt w components1 (cube_p c') = Some 1))
                     in Inr (if shouldRemoveConnector then components1[neighborIndex := 2]
                             else components1, chunkIds1)))
             else Inr (components, chunkIds))
      else Inr (components, chunkIds))"

definition findComponents :: "World \<Rightarrow> error + (int list \<times> int list)" where
  "findComponents w =
     (let n = length (cubes w);
          components = replicate n (- 1);
          chunkIds = replicate n (- 1)
      in
      if cubes w = [] then Inr (components, chunkIds)
      else
        (case isConnected w None of
           Inl e \<Rightarrow> Inl e
         | Inr connected \<Rightarrow>
             if \<not> connected then Inr (components, chunkIds)
             else
               (case outsideCubes w of
                  Inl e \<Rightarrow> Inl e
                | Inr outside \<Rightarrow>
                    (case foldE (componentsStep w) outside
                            (replicate n False, [], 0, components, chunkIds) of
                       Inl e \<Rightarrow> Inl e
                     | Inr (seen, stack, chunksSeen, components1, chunkIds1) \<Rightarrow>
                         (case outside of
                            [] \<Rightarrow> Inl TypeError
                          | origin # rest \<Rightarrow>
                              (case getCubeId w (cube_p origin) of
                                 None \<Rightarrow> Inl TypeError
                               | Some originId \<Rightarrow>
                                   (let components2 =
                                          (if originId < length components1
                                               \<and> components1 ! originId = - 1
                                           then components1[originId := 1] else components1);
                                        components3 =
                                          map (\<lambda>c. if c = - 1 then 2 else c) components2
                                    in foldE (looseStep w) [0..<n]
                                         (components3, chunkIds1))))))))"

section \<open>Marking\<close>

definition statusOf :: "int \<Rightarrow> bool \<Rightarrow> ComponentStatus" where
  "statusOf component isStable =
     (if component = 2 then (if isStable then CHUNK_STABLE else CHUNK_CUT)
      else if component = 1 then (if isStable then LINK_STABLE else LINK_CUT)
      else if component = 3 then CONNECTOR
      else NONE)"

text \<open>\<^verbatim>\<open>markComponents\<close>. The three analyses read positions and the cell index only, which the
  marking does not change. The cube objects returned by \<^verbatim>\<open>outsideCubes\<close> are the entries of
  \<^verbatim>\<open>cubes\<close> at the indices the walk collected.\<close>

definition markComponents :: "World \<Rightarrow> error + World" where
  "markComponents w =
     (case findComponents w of
        Inl e \<Rightarrow> Inl e
      | Inr (components, chunkIds) \<Rightarrow>
          (case findCubeStability w of
             Inl e \<Rightarrow> Inl e
           | Inr stability \<Rightarrow>
               (case outsideWalk w of
                  Inl e \<Rightarrow> Inl e
                | Inr (ids, edges) \<Rightarrow>
                    Inr (w\<lparr>cubes :=
                      map (\<lambda>i. (cubes w ! i)
                             \<lparr>componentStatus := statusOf (components ! i) (stability ! i),
                              chunkId := chunkIds ! i,
                              onBoundary := (i \<in> set ids)\<rparr>)
                          [0..<length (cubes w)]\<rparr>))))"

definition addCube :: "World \<Rightarrow> Position \<Rightarrow> Color \<Rightarrow> error + World" where
  "addCube w pp c =
     (case addCubeUnmarked w pp c of Inl e \<Rightarrow> Inl e | Inr w' \<Rightarrow> markComponents w')"

definition moveCube :: "World \<Rightarrow> Position \<Rightarrow> Position \<Rightarrow> error + World" where
  "moveCube w from to =
     (case moveCubeUnmarked w from to of Inl e \<Rightarrow> Inl e | Inr w' \<Rightarrow> markComponents w')"

definition removeCube :: "World \<Rightarrow> Position \<Rightarrow> error + World" where
  "removeCube w pp =
     (case removeCubeUnmarked w pp of Inl e \<Rightarrow> Inl e | Inr w' \<Rightarrow> markComponents w')"

section \<open>Bridge capacity\<close>

text \<open>\<^verbatim>\<open>if (c.cubeId !== null) queue.push(c.cubeId)\<close>.\<close>

definition presentIds :: "World \<Rightarrow> Position list \<Rightarrow> nat list" where
  "presentIds w ps = concat (map (\<lambda>q. case getCubeId w q of None \<Rightarrow> [] | Some i \<Rightarrow> [i]) ps)"

text \<open>The \<^verbatim>\<open>while (queue.length !== 0)\<close> loop of \<^verbatim>\<open>bridgeCapacity\<close>.\<close>

function bridgeCapacityLoop ::
  "World \<Rightarrow> nat option \<Rightarrow> bool list \<Rightarrow> nat \<Rightarrow> nat list \<Rightarrow> error + nat" where
  "bridgeCapacityLoop w bId seen cubeCount [] = Inr cubeCount"
| "bridgeCapacityLoop w bId seen cubeCount (cubeId # queue) =
     (if arrGet seen cubeId then bridgeCapacityLoop w bId seen cubeCount queue
      else if \<not> cubeId < length (cubes w) then Inl TypeError
      else bridgeCapacityLoop w bId (arrSet seen cubeId)
             (if bId \<noteq> Some cubeId then cubeCount + 1 else cubeCount)
             (queue @ presentIds w (neighborCells (cube_p (cubes w ! cubeId)))))"
  by pat_completeness auto
termination
  by (relation "measures [\<lambda>(w, bId, seen, c, q). unseenCount (length (cubes w)) seen,
                          \<lambda>(w, bId, seen, c, q). length q]")
     (auto simp: unseenCount_arrSet_less)

definition bridgeCapacity :: "World \<Rightarrow> Cube \<Rightarrow> error + int" where
  "bridgeCapacity w b =
     (let seen = replicate (length (cubes w)) False;
          bId = getCubeId w (cube_p b);
          seen' = (case bId of None \<Rightarrow> seen | Some k \<Rightarrow> arrSet seen k)
      in case downmostLeftmost w of
           None \<Rightarrow> Inl TypeError
         | Some root \<Rightarrow>
             (case getCubeId w (cube_p root) of
                None \<Rightarrow> Inl TypeError
              | Some originId \<Rightarrow>
                  (case bridgeCapacityLoop w bId seen' 1 [originId] of
                     Inl e \<Rightarrow> Inl e
                   | Inr cubeCount \<Rightarrow> Inr (int (length (cubes w)) - int cubeCount))))"

section \<open>Instances\<close>

text \<open>The value that \<^verbatim>\<open>JSON.stringify\<close> writes and \<^verbatim>\<open>JSON.parse\<close> reads back: an object with an
  optional \<^verbatim>\<open>_version\<close> and the list \<^verbatim>\<open>cubes\<close> of objects with \<^verbatim>\<open>x\<close>, \<^verbatim>\<open>y\<close> and an optional
  \<^verbatim>\<open>color\<close>. The text between the two is not modelled: for objects, arrays and integers
  parsing returns the value written.\<close>

record CubeJson =
  jsonX :: int
  jsonY :: int
  jsonColor :: "(int \<times> int \<times> int) option"

record WorldJson =
  jsonVersion :: "int option"
  jsonCubes :: "CubeJson list"

definition serialize :: "World \<Rightarrow> WorldJson" where
  "serialize w =
     \<lparr>jsonVersion = Some 1,
      jsonCubes = map (\<lambda>c. \<lparr>jsonX = fst (resetPosition c), jsonY = snd (resetPosition c),
                            jsonColor = (case color c of Color r g b \<Rightarrow> Some (r, g, b))\<rparr>)
                    (cubes w)\<rparr>"

definition deserializeCube :: "CubeJson \<Rightarrow> World \<Rightarrow> error + World" where
  "deserializeCube cj w =
     addCube w (jsonX cj, jsonY cj)
       (case jsonColor cj of None \<Rightarrow> BLUE | Some (r, g, b) \<Rightarrow> Color r g b)"

definition deserialize :: "World \<Rightarrow> WorldJson \<Rightarrow> error + World" where
  "deserialize w obj =
     (if (case jsonVersion obj of None \<Rightarrow> False | Some v \<Rightarrow> v > 1) then Inl BadVersion
      else foldE deserializeCube (jsonCubes obj) w)"

section \<open>Move graph planner\<close>

lemma hasNeighbors_simps:
  "hasNeighbors w (x, y) ''N'' = hasCube w (x, y + 1)"
  "hasNeighbors w (x, y) ''NE'' = hasCube w (x + 1, y + 1)"
  "hasNeighbors w (x, y) ''E'' = hasCube w (x + 1, y)"
  "hasNeighbors w (x, y) ''SE'' = hasCube w (x + 1, y - 1)"
  "hasNeighbors w (x, y) ''S'' = hasCube w (x, y - 1)"
  "hasNeighbors w (x, y) ''SW'' = hasCube w (x - 1, y - 1)"
  "hasNeighbors w (x, y) ''W'' = hasCube w (x - 1, y)"
  "hasNeighbors w (x, y) ''NW'' = hasCube w (x - 1, y + 1)"
  by (simp_all add: hasNeighbors_def)

lemma targetPosition_simps:
  "targetPosition \<lparr>position = (x, y), direction = N\<rparr> = (x, y + 1)"
  "targetPosition \<lparr>position = (x, y), direction = E\<rparr> = (x + 1, y)"
  "targetPosition \<lparr>position = (x, y), direction = S\<rparr> = (x, y - 1)"
  "targetPosition \<lparr>position = (x, y), direction = W\<rparr> = (x - 1, y)"
  "targetPosition \<lparr>position = (x, y), direction = NW\<rparr> = (x - 1, y + 1)"
  "targetPosition \<lparr>position = (x, y), direction = NE\<rparr> = (x + 1, y + 1)"
  "targetPosition \<lparr>position = (x, y), direction = EN\<rparr> = (x + 1, y + 1)"
  "targetPosition \<lparr>position = (x, y), direction = ES\<rparr> = (x + 1, y - 1)"
  "targetPosition \<lparr>position = (x, y), direction = SE\<rparr> = (x + 1, y - 1)"
  "targetPosition \<lparr>position = (x, y), direction = SW\<rparr> = (x - 1, y - 1)"
  "targetPosition \<lparr>position = (x, y), direction = WS\<rparr> = (x - 1, y - 1)"
  "targetPosition \<lparr>position = (x, y), direction = WN\<rparr> = (x - 1, y + 1)"
  by (simp_all add: targetPosition_def targetPositionFromFields_def)

lemma isValidIgnoreConnectivity_simps:
  "isValidIgnoreConnectivity w \<lparr>position = (x, y), direction = N\<rparr> =
     (\<not> hasCube w (x, y + 1) \<and> ((hasCube w (x - 1, y) \<and> hasCube w (x - 1, y + 1))
        \<or> (hasCube w (x + 1, y) \<and> hasCube w (x + 1, y + 1))))"
  "isValidIgnoreConnectivity w \<lparr>position = (x, y), direction = E\<rparr> =
     (\<not> hasCube w (x + 1, y) \<and> ((hasCube w (x, y + 1) \<and> hasCube w (x + 1, y + 1))
        \<or> (hasCube w (x, y - 1) \<and> hasCube w (x + 1, y - 1))))"
  "isValidIgnoreConnectivity w \<lparr>position = (x, y), direction = S\<rparr> =
     (\<not> hasCube w (x, y - 1) \<and> ((hasCube w (x - 1, y) \<and> hasCube w (x - 1, y - 1))
        \<or> (hasCube w (x + 1, y) \<and> hasCube w (x + 1, y - 1))))"
  "isValidIgnoreConnectivity w \<lparr>position = (x, y), direction = W\<rparr> =
     (\<not> hasCube w (x - 1, y) \<and> ((hasCube w (x, y + 1) \<and> hasCube w (x - 1, y + 1))
        \<or> (hasCube w (x, y - 1) \<and> hasCube w (x - 1, y - 1))))"
  "isValidIgnoreConnectivity w \<lparr>position = (x, y), direction = NW\<rparr> =
     (\<not> hasCube w (x - 1, y + 1) \<and> \<not> hasCube w (x, y + 1) \<and> hasCube w (x - 1, y))"
  "isValidIgnoreConnectivity w \<lparr>position = (x, y), direction = NE\<rparr> =
     (\<not> hasCube w (x + 1, y + 1) \<and> \<not> hasCube w (x, y + 1) \<and> hasCube w (x + 1, y))"
  "isValidIgnoreConnectivity w \<lparr>position = (x, y), direction = EN\<rparr> =
     (\<not> hasCube w (x + 1, y + 1) \<and> \<not> hasCube w (x + 1, y) \<and> hasCube w (x, y + 1))"
  "isValidIgnoreConnectivity w \<lparr>position = (x, y), direction = ES\<rparr> =
     (\<not> hasCube w (x + 1, y - 1) \<and> \<not> hasCube w (x + 1, y) \<and> hasCube w (x, y - 1))"
  "isValidIgnoreConnectivity w \<lparr>position = (x, y), direction = SE\<rparr> =
     (\<not> hasCube w (x + 1, y - 1) \<and> \<not> hasCube w (x, y - 1) \<and> hasCube w (x + 1, y))"
  "isValidIgnoreConnectivity w \<lparr>position = (x, y), direction = SW\<rparr> =
     (\<not> hasCube w (x - 1, y - 1) \<and> \<not> hasCube w (x, y - 1) \<and> hasCube w (x - 1, y))"
  "isValidIgnoreConnectivity w \<lparr>position = (x, y), direction = WS\<rparr> =
     (\<not> hasCube w (x - 1, y - 1) \<and> \<not> hasCube w (x - 1, y) \<and> hasCube w (x, y - 1))"
  "isValidIgnoreConnectivity w \<lparr>position = (x, y), direction = WN\<rparr> =
     (\<not> hasCube w (x - 1, y + 1) \<and> \<not> hasCube w (x - 1, y) \<and> hasCube w (x, y + 1))"
  by (simp_all add: isValidIgnoreConnectivity_def targetPosition_simps hasNeighbors_simps
        Let_def hasCube_def)

text \<open>The cells within one step, diagonals included, of a cell that the index knows: every
  target of a legal move is one of them.\<close>

definition nearCells :: "World \<Rightarrow> Position set" where
  "nearCells w = (\<Union>(x, y) \<in> fset (fmdom (world w)). {x - 1, x, x + 1} \<times> {y - 1, y, y + 1})"

lemma finite_nearCells: "finite (nearCells w)"
  unfolding nearCells_def by (intro finite_UN_I) auto

lemma hasCube_fmdom:
  assumes "hasCube w pp"
  shows "pp |\<in>| fmdom (world w)"
proof -
  from assms obtain i where "fmlookup (world w) pp = Some i"
    by (auto simp: hasCube_def getCube_def getCubeId_def split: option.splits)
  then show ?thesis by (rule fmdomI)
qed

lemma hasCube_near:
  assumes "hasCube w (x, y)" "\<bar>x' - x\<bar> \<le> 1" "\<bar>y' - y\<bar> \<le> 1"
  shows "(x', y') \<in> nearCells w"
proof -
  have 1: "(x, y) \<in> fset (fmdom (world w))"
    using assms(1) by (rule hasCube_fmdom)
  have "x' = x - 1 \<or> x' = x \<or> x' = x + 1"
    using assms(2) by arith
  moreover have "y' = y - 1 \<or> y' = y \<or> y' = y + 1"
    using assms(3) by arith
  ultimately have 2: "(x', y') \<in> {x - 1, x, x + 1} \<times> {y - 1, y, y + 1}"
    by blast
  have "(x', y') \<in> (case (x, y) of (x, y) \<Rightarrow> {x - 1, x, x + 1} \<times> {y - 1, y, y + 1})"
    using 2 by simp
  with 1 show ?thesis
    unfolding nearCells_def by (rule UN_I)
qed

lemma Move_eq: "(m::Move) = \<lparr>position = position m, direction = direction m\<rparr>"
  by simp

lemma valid_target_has_neighbor:
  assumes "isValidIgnoreConnectivity w \<lparr>position = (x, y), direction = d\<rparr>"
  shows "\<exists>q \<in> set (neighborCells (targetPosition \<lparr>position = (x, y), direction = d\<rparr>)).
           q \<noteq> (x, y) \<and> hasCube w q"
  using assms
  by (cases d)
     (auto simp: isValidIgnoreConnectivity_simps targetPosition_simps neighborCells_def)

lemma neighborCells_near:
  assumes "q \<in> set (neighborCells pp)" "hasCube w q"
  shows "pp \<in> nearCells w"
proof -
  obtain x y where pp: "pp = (x, y)" by (cases pp)
  obtain a b where q: "q = (a, b)" by (cases q)
  have "\<bar>x - a\<bar> \<le> 1 \<and> \<bar>y - b\<bar> \<le> 1"
    using assms(1) unfolding pp q neighborCells_def by auto
  then show ?thesis
    using hasCube_near[of w a b x y] assms(2) unfolding pp q by simp
qed

lemma valid_target_near:
  assumes "isValidIgnoreConnectivity w m"
  shows "targetPosition m \<in> nearCells w"
proof -
  obtain x y where pm: "position m = (x, y)" by (cases "position m")
  have m: "m = \<lparr>position = (x, y), direction = direction m\<rparr>"
    using pm Move_eq[of m] by simp
  from assms m have "isValidIgnoreConnectivity w \<lparr>position = (x, y), direction = direction m\<rparr>"
    by simp
  from valid_target_has_neighbor[OF this] m
  obtain q where "q \<in> set (neighborCells (targetPosition m))" "hasCube w q"
    by auto
  then show ?thesis by (rule neighborCells_near)
qed

lemma validMovesFrom_near:
  assumes "validMovesFrom w pp = Inr ms" "m \<in> set ms"
  shows "targetPosition m \<in> nearCells w"
  using assms valid_target_near
  by (auto simp: validMovesFrom_def split: sum.splits if_splits)

type_synonym SeenMap = "(Position \<times> Move option) list"

text \<open>The object \<^verbatim>\<open>seen\<close> of \<^verbatim>\<open>shortestMovePath\<close>, keyed by the cell, as the list of its
  entries in insertion order; the value \<^verbatim>\<open>{seen: true, move: m}\<close> is the move \<open>m\<close>. The loop
  below is its \<^verbatim>\<open>while (queue.length !== 0)\<close>.\<close>

function shortestMovePathLoop ::
  "World \<Rightarrow> Position \<Rightarrow> SeenMap \<Rightarrow> (Position \<times> Move option) list \<Rightarrow> error + SeenMap" where
  "shortestMovePathLoop w to seen [] = Inr seen"
| "shortestMovePathLoop w to seen (location # queue) =
     (if map_of seen (fst location) \<noteq> None then shortestMovePathLoop w to seen queue
      else
        (let seen' = seen @ [location] in
         if fst location = to then Inr seen'
         else
           (case validMovesFrom w (fst location) of
              Inl e \<Rightarrow> Inl e
            | Inr moves \<Rightarrow>
                shortestMovePathLoop w to seen'
                  (queue @ map (\<lambda>m. (targetPosition m, Some m)) moves))))"
  by pat_completeness auto
termination
proof (relation "measures [\<lambda>(w, to, seen, q). card ((nearCells w \<union> fst ` set q) - fst ` set seen),
                           \<lambda>(w, to, seen, q). length q]", goal_cases)
  case 1
  show ?case by simp
next
  case (2 w to seen location queue)
  have "card ((nearCells w \<union> fst ` set queue) - fst ` set seen)
          \<le> card ((nearCells w \<union> fst ` set (location # queue)) - fst ` set seen)"
    by (intro card_mono) (auto simp: finite_nearCells)
  then show ?case by auto
next
  case (3 w to seen location queue seen' moves)
  let ?q' = "queue @ map (\<lambda>m. (targetPosition m, Some m)) moves"
  have "targetPosition m \<in> nearCells w" if "m \<in> set moves" for m
    using 3 that validMovesFrom_near by blast
  then have sub: "fst ` set ?q' \<subseteq> nearCells w \<union> fst ` set queue"
    by (auto simp: image_Un)
  have notin: "fst location \<notin> fst ` set seen"
    using 3 by (auto simp: map_of_eq_None_iff)
  have "(nearCells w \<union> fst ` set ?q') - fst ` set seen'
          \<subset> (nearCells w \<union> fst ` set (location # queue)) - fst ` set seen"
    using sub notin 3 by auto
  then have "card ((nearCells w \<union> fst ` set ?q') - fst ` set seen')
          < card ((nearCells w \<union> fst ` set (location # queue)) - fst ` set seen)"
    by (intro psubset_card_mono) (auto simp: finite_nearCells)
  then show ?case by simp
qed

text \<open>The loop \<^verbatim>\<open>while (c[0] !== from[0] || c[1] !== from[1])\<close> that rebuilds the path. It
  follows the moves stored in \<^verbatim>\<open>seen\<close> and runs forever when they form a cycle; the result
  \<open>None\<close> stands for that. Each pass reads \<^verbatim>\<open>seen\<close> at another key unless the keys repeat, so
  the loop is cut off after as many passes as \<^verbatim>\<open>seen\<close> has entries.\<close>

fun reconstructPath ::
  "nat \<Rightarrow> SeenMap \<Rightarrow> Position \<Rightarrow> Position \<Rightarrow> Move list \<Rightarrow> (error + Move list) option" where
  "reconstructPath 0 seen from c path =
     (if c = from then Some (Inr path)
      else
        (case map_of seen c of
           None \<Rightarrow> Some (Inl TypeError)
         | Some None \<Rightarrow> Some (Inl TypeError)
         | Some (Some move) \<Rightarrow> None))"
| "reconstructPath (Suc fuel) seen from c path =
     (if c = from then Some (Inr path)
      else
        (case map_of seen c of
           None \<Rightarrow> Some (Inl TypeError)
         | Some None \<Rightarrow> Some (Inl TypeError)
         | Some (Some move) \<Rightarrow>
             reconstructPath fuel seen from (sourcePosition move) (move # path)))"

text \<open>\<^verbatim>\<open>newCube.componentStatus = cube.componentStatus\<close> on the cube that \<^verbatim>\<open>addCubeUnmarked\<close>
  has just pushed.\<close>

definition setLastStatus :: "World \<Rightarrow> ComponentStatus \<Rightarrow> World" where
  "setLastStatus w st =
     w\<lparr>cubes := (cubes w)[length (cubes w) - 1 := (last (cubes w))\<lparr>componentStatus := st\<rparr>]\<rparr>"

text \<open>\<^verbatim>\<open>shortestMovePath\<close>: the world it leaves behind and either the error thrown or the moves
  the generator yields.\<close>

definition shortestMovePath ::
  "World \<Rightarrow> Position \<Rightarrow> Position \<Rightarrow> (World \<times> (error + Move list)) option" where
  "shortestMovePath w from to =
     (case getCube w from of
        None \<Rightarrow> Some (w, Inl NoSourceCube)
      | Some cube \<Rightarrow>
          (case removeCubeUnmarked w from of
             Inl e \<Rightarrow> Some (w, Inl e)
           | Inr w1 \<Rightarrow>
               (case shortestMovePathLoop w1 to [] [(from, None)] of
                  Inl e \<Rightarrow> Some (w1, Inl e)
                | Inr seen \<Rightarrow>
                    if map_of seen to = None then
                      (case addCubeUnmarked w1 (cube_p cube) (color cube) of
                         Inl e \<Rightarrow> Some (w1, Inl e)
                       | Inr w2 \<Rightarrow>
                           Some (setLastStatus w2 (componentStatus cube), Inl NoMovePath))
                    else
                      (case reconstructPath (length seen) seen from to [] of
                         None \<Rightarrow> None
                       | Some (Inl e) \<Rightarrow> Some (w1, Inl e)
                       | Some (Inr path) \<Rightarrow>
                           (case addCubeUnmarked w1 (cube_p cube) (color cube) of
                              Inl e \<Rightarrow> Some (w1, Inl e)
                            | Inr w2 \<Rightarrow>
                                Some (setLastStatus w2 (componentStatus cube), Inr path))))))"

section \<open>Stepper\<close>

text \<open>\<^verbatim>\<open>nextStepUnmarked\<close> driven along a list of moves: each move is checked with \<^verbatim>\<open>isValid\<close>
  when it is pulled and executed with \<^verbatim>\<open>executeUnmarked\<close> afterwards.\<close>

definition executeUnmarked :: "World \<Rightarrow> Move \<Rightarrow> error + World" where
  "executeUnmarked w m = moveCubeUnmarked w (position m) (targetPosition m)"

fun runMoves :: "World \<Rightarrow> Move list \<Rightarrow> error + World" where
  "runMoves w [] = Inr w"
| "runMoves w (m # ms) =
     (case isValid w m of
        Inl e \<Rightarrow> Inl e
      | Inr v \<Rightarrow>
          if \<not> v then Inl InvalidMove
          else (case executeUnmarked w m of Inl e \<Rightarrow> Inl e | Inr w' \<Rightarrow> runMoves w' ms))"

section \<open>Specification: well-formed worlds and connectivity\<close>

text \<open>The invariant of the grid store: the cell index and the cube list agree.\<close>

definition wf_world :: "World \<Rightarrow> bool" where
  "wf_world w =
     (\<forall>pp i. getCubeId w pp = Some i \<longleftrightarrow> (i < length (cubes w) \<and> cube_p (cubes w ! i) = pp))"

text \<open>The configuration: the set of occupied cells.\<close>

definition occupied :: "World \<Rightarrow> Position set" where
  "occupied w = set (map cube_p (cubes w))"

text \<open>Orthogonal adjacency and 4-connectedness of a set of cells.\<close>

definition adjacent :: "Position \<Rightarrow> Position \<Rightarrow> bool" where
  "adjacent a b = (\<bar>fst a - fst b\<bar> + \<bar>snd a - snd b\<bar> = 1)"

definition adjOn :: "Position set \<Rightarrow> (Position \<times> Position) set" where
  "adjOn A = {(a, b). a \<in> A \<and> b \<in> A \<and> adjacent a b}"

definition connected4 :: "Position set \<Rightarrow> bool" where
  "connected4 A = (\<forall>a \<in> A. \<forall>b \<in> A. (a, b) \<in> (adjOn A)\<^sup>*)"

lemma wf_getCubeId:
  "wf_world w \<Longrightarrow> getCubeId w pp = Some i \<longleftrightarrow> (i < length (cubes w) \<and> cube_p (cubes w ! i) = pp)"
  unfolding wf_world_def by blast

lemma wf_getCubeId_nth:
  "wf_world w \<Longrightarrow> i < length (cubes w) \<Longrightarrow> getCubeId w (cube_p (cubes w ! i)) = Some i"
  by (simp add: wf_getCubeId)

lemma wf_inj:
  assumes "wf_world w" "i < length (cubes w)" "j < length (cubes w)"
    and "cube_p (cubes w ! i) = cube_p (cubes w ! j)"
  shows "i = j"
proof -
  have "getCubeId w (cube_p (cubes w ! i)) = Some i"
    using assms(1,2) by (rule wf_getCubeId_nth)
  moreover have "getCubeId w (cube_p (cubes w ! j)) = Some j"
    using assms(1,3) by (rule wf_getCubeId_nth)
  ultimately show ?thesis using assms(4) by (metis option.inject)
qed

lemma wf_hasCube: 
  assumes "wf_world w"
  shows "hasCube w pp \<longleftrightarrow> pp \<in> occupied w"
proof
  assume "hasCube w pp"
  then obtain i where "getCubeId w pp = Some i" "i < length (cubes w)"
    by (auto simp: hasCube_def getCube_def split: option.splits if_splits)
  then have "cube_p (cubes w ! i) = pp" "i < length (cubes w)"
    using wf_getCubeId[OF assms] by auto
  then show "pp \<in> occupied w"
    unfolding occupied_def by (metis length_map nth_map nth_mem)
next
  assume "pp \<in> occupied w"
  then obtain i where "i < length (cubes w)" "cube_p (cubes w ! i) = pp"
    unfolding occupied_def by (auto simp: in_set_conv_nth)
  then have "getCubeId w pp = Some i"
    using wf_getCubeId[OF assms] by auto
  then show "hasCube w pp"
    using \<open>i < length (cubes w)\<close> by (simp add: hasCube_def getCube_def)
qed

lemma adjacent_neighborCells: "q \<in> set (neighborCells pp) \<longleftrightarrow> adjacent pp q"
proof -
  obtain x y where pp: "pp = (x, y)" by (cases pp)
  obtain a b where q: "q = (a, b)" by (cases q)
  show ?thesis
    unfolding pp q neighborCells_def adjacent_def by auto
qed

lemma adjacent_sym: "adjacent a b \<Longrightarrow> adjacent b a"
  unfolding adjacent_def by linarith

subsection \<open>The search of \<^verbatim>\<open>isConnected\<close> visits what can be reached\<close>

definition seenSet :: "bool list \<Rightarrow> nat set" where
  "seenSet seen = {i. arrGet seen i}"

lemma seenSet_arrSet: "seenSet (arrSet seen i) = insert i (seenSet seen)"
  by (auto simp: seenSet_def arrGet_arrSet)

lemma seenSet_replicate: "seenSet (replicate n False) = {}"
  by (auto simp: seenSet_def arrGet_def)

definition idAdj :: "World \<Rightarrow> nat \<Rightarrow> nat \<Rightarrow> bool" where
  "idAdj w i j = (i < length (cubes w) \<and> j < length (cubes w)
      \<and> adjacent (cube_p (cubes w ! i)) (cube_p (cubes w ! j)))"

definition avoidRel :: "World \<Rightarrow> nat set \<Rightarrow> (nat \<times> nat) set" where
  "avoidRel w X = {(i, j). idAdj w i j \<and> i \<notin> X \<and> j \<notin> X}"

definition visitable :: "World \<Rightarrow> nat set \<Rightarrow> nat set \<Rightarrow> nat set" where
  "visitable w X Q = {v. \<exists>x \<in> Q. x < length (cubes w) \<and> x \<notin> X \<and> (x, v) \<in> (avoidRel w X)\<^sup>*}"

lemma visitable_props:
  assumes "v \<in> visitable w X Q"
  shows "v < length (cubes w) \<and> v \<notin> X"
proof -
  from assms obtain x where x: "x < length (cubes w)" "x \<notin> X" "(x, v) \<in> (avoidRel w X)\<^sup>*"
    unfolding visitable_def by blast
  from x(3) x(1,2) show ?thesis
    by (induction rule: rtrancl_induct) (auto simp: avoidRel_def idAdj_def)
qed

lemma finite_visitable: "finite (visitable w X Q)"
proof -
  have "visitable w X Q \<subseteq> {..<length (cubes w)}"
    using visitable_props by blast
  then show ?thesis by (rule finite_subset) simp
qed

lemma in_truthyIds:
  "j \<in> set (truthyIds w ps) \<longleftrightarrow> (j \<noteq> 0 \<and> (\<exists>q \<in> set ps. getCubeId w q = Some j))"
proof (induction ps)
  case Nil
  show ?case by (simp add: truthyIds_def)
next
  case (Cons q ps)
  have "truthyIds w (q # ps)
      = (case getCubeId w q of None \<Rightarrow> [] | Some i \<Rightarrow> if i = 0 then [] else [i]) @ truthyIds w ps"
    by (simp add: truthyIds_def)
  then show ?case
    using Cons by (cases "getCubeId w q") auto
qed

lemma set_truthyIds:
  assumes "wf_world w" "x < length (cubes w)"
  shows "set (truthyIds w (neighborCells (cube_p (cubes w ! x)))) = {j. j \<noteq> 0 \<and> idAdj w x j}"
proof (intro equalityI subsetI)
  fix j assume "j \<in> set (truthyIds w (neighborCells (cube_p (cubes w ! x))))"
  then obtain q where j0: "j \<noteq> 0" and q: "q \<in> set (neighborCells (cube_p (cubes w ! x)))"
    and g: "getCubeId w q = Some j"
    unfolding in_truthyIds by blast
  from g have "j < length (cubes w)" "cube_p (cubes w ! j) = q"
    using wf_getCubeId[OF assms(1)] by auto
  with q assms(2) have "idAdj w x j"
    by (simp add: idAdj_def adjacent_neighborCells)
  with j0 show "j \<in> {j. j \<noteq> 0 \<and> idAdj w x j}" by simp
next
  fix j assume "j \<in> {j. j \<noteq> 0 \<and> idAdj w x j}"
  then have j0: "j \<noteq> 0" and adj: "idAdj w x j" by auto
  from adj have jl: "j < length (cubes w)"
    and q: "cube_p (cubes w ! j) \<in> set (neighborCells (cube_p (cubes w ! x)))"
    by (auto simp: idAdj_def adjacent_neighborCells)
  have "getCubeId w (cube_p (cubes w ! j)) = Some j"
    using assms(1) jl by (rule wf_getCubeId_nth)
  with j0 q show "j \<in> set (truthyIds w (neighborCells (cube_p (cubes w ! x))))"
    unfolding in_truthyIds by blast
qed

lemma visitable_seen:
  assumes "x \<in> X"
  shows "visitable w X (insert x Q) = visitable w X Q"
  using assms unfolding visitable_def by auto

lemma visitable_step:
  assumes x: "x < length (cubes w)" "x \<notin> X"
    and sub: "Nb \<subseteq> {j. idAdj w x j}"
    and sup: "{j. idAdj w x j} \<subseteq> Nb \<union> X \<union> Q \<union> {x}"
  shows "visitable w X (insert x Q) = insert x (visitable w (insert x X) (Q \<union> Nb))"
proof (intro equalityI subsetI)
  fix v assume "v \<in> visitable w X (insert x Q)"
  then obtain x0 where x0: "x0 \<in> insert x Q" "x0 < length (cubes w)" "x0 \<notin> X"
    and path: "(x0, v) \<in> (avoidRel w X)\<^sup>*"
    unfolding visitable_def by blast
  from path show "v \<in> insert x (visitable w (insert x X) (Q \<union> Nb))"
  proof (induction rule: rtrancl_induct)
    case base
    show ?case
    proof (cases "x0 = x")
      case True then show ?thesis by simp
    next
      case False
      with x0 have "x0 \<in> visitable w (insert x X) (Q \<union> Nb)"
        unfolding visitable_def by auto
      then show ?thesis by simp
    qed
  next
    case (step y z)
    from step.hyps(2) have yz: "idAdj w y z" "y \<notin> X" "z \<notin> X"
      by (auto simp: avoidRel_def)
    show ?case
    proof (cases "z = x")
      case True then show ?thesis by simp
    next
      case zx: False
      show ?thesis
      proof (cases "y = x")
        case True
        have zn: "z < length (cubes w)" using yz(1) by (simp add: idAdj_def)
        from yz(1) True sup have "z \<in> Nb \<union> X \<union> Q \<union> {x}" by blast
        with yz(3) zx have "z \<in> Q \<union> Nb" by blast
        with zn yz(3) zx have "z \<in> visitable w (insert x X) (Q \<union> Nb)"
          unfolding visitable_def by auto
        then show ?thesis by simp
      next
        case False
        with step.IH have "y \<in> visitable w (insert x X) (Q \<union> Nb)" by simp
        then obtain q0 where q0: "q0 \<in> Q \<union> Nb" "q0 < length (cubes w)" "q0 \<notin> insert x X"
          and p: "(q0, y) \<in> (avoidRel w (insert x X))\<^sup>*"
          unfolding visitable_def by blast
        have "(y, z) \<in> avoidRel w (insert x X)"
          using yz zx False by (simp add: avoidRel_def)
        with p have "(q0, z) \<in> (avoidRel w (insert x X))\<^sup>*" by (rule rtrancl_into_rtrancl)
        with q0 have "z \<in> visitable w (insert x X) (Q \<union> Nb)"
          unfolding visitable_def by blast
        then show ?thesis by simp
      qed
    qed
  qed
next
  fix v assume v: "v \<in> insert x (visitable w (insert x X) (Q \<union> Nb))"
  have mono: "(avoidRel w (insert x X))\<^sup>* \<subseteq> (avoidRel w X)\<^sup>*"
    by (rule rtrancl_mono) (auto simp: avoidRel_def)
  show "v \<in> visitable w X (insert x Q)"
  proof (cases "v = x")
    case True
    with x show ?thesis unfolding visitable_def by auto
  next
    case False
    with v obtain q0 where q0: "q0 \<in> Q \<union> Nb" "q0 < length (cubes w)" "q0 \<notin> insert x X"
      and p: "(q0, v) \<in> (avoidRel w (insert x X))\<^sup>*"
      unfolding visitable_def by blast
    from p mono have p': "(q0, v) \<in> (avoidRel w X)\<^sup>*" by blast
    show ?thesis
    proof (cases "q0 \<in> Q")
      case True
      with q0 p' show ?thesis unfolding visitable_def by blast
    next
      case False
      with q0 sub have "idAdj w x q0" by blast
      with x q0 have "(x, q0) \<in> avoidRel w X" by (simp add: avoidRel_def)
      then have "(x, v) \<in> (avoidRel w X)\<^sup>*" using p' by (rule converse_rtrancl_into_rtrancl)
      with x show ?thesis unfolding visitable_def by blast
    qed
  qed
qed

lemma isConnectedLoop_correct:
  "wf_world w \<Longrightarrow> 0 \<in> seenSet seen \<union> set queue \<Longrightarrow> set queue \<subseteq> {..<length (cubes w)} \<Longrightarrow>
    isConnectedLoop w seen seenCount queue
      = Inr (seenCount + card (visitable w (seenSet seen) (set queue)))"
proof (induction w seen seenCount queue rule: isConnectedLoop.induct)
  case (1 w seen seenCount)
  then show ?case by (simp add: visitable_def)
next
  case (2 w seen seenCount cubeId queue)
  note wf = "2.prems"(1)
  note zero = "2.prems"(2)
  note bound = "2.prems"(3)
  show ?case
  proof (cases "arrGet seen cubeId")
    case True
    then have in_seen: "cubeId \<in> seenSet seen" by (simp add: seenSet_def)
    have "0 \<in> seenSet seen \<union> set queue" using zero in_seen by auto
    moreover have "set queue \<subseteq> {..<length (cubes w)}" using bound by simp
    ultimately have "isConnectedLoop w seen seenCount queue
      = Inr (seenCount + card (visitable w (seenSet seen) (set queue)))"
      using "2.IH"(1)[OF True wf] by blast
    then show ?thesis
      using True in_seen by (simp add: visitable_seen)
  next
    case False
    then have notin: "cubeId \<notin> seenSet seen" by (simp add: seenSet_def)
    have lt: "cubeId < length (cubes w)" using bound by simp
    let ?Nb = "truthyIds w (neighborCells (cube_p (cubes w ! cubeId)))"
    have Nb: "set ?Nb = {j. j \<noteq> 0 \<and> idAdj w cubeId j}"
      using wf lt by (rule set_truthyIds)
    have "0 \<in> seenSet (arrSet seen cubeId) \<union> set (queue @ ?Nb)"
      using zero by (auto simp: seenSet_arrSet)
    moreover have "set (queue @ ?Nb) \<subseteq> {..<length (cubes w)}"
      using bound Nb by (auto simp: idAdj_def)
    ultimately have IH: "isConnectedLoop w (arrSet seen cubeId) (seenCount + 1) (queue @ ?Nb)
      = Inr (seenCount + 1 + card (visitable w (seenSet (arrSet seen cubeId)) (set (queue @ ?Nb))))"
      using "2.IH"(2)[OF False _ wf] lt by simp
    have step: "visitable w (seenSet seen) (insert cubeId (set queue))
        = insert cubeId (visitable w (insert cubeId (seenSet seen)) (set queue \<union> set ?Nb))"
    proof (rule visitable_step)
      show "cubeId < length (cubes w)" by (rule lt)
      show "cubeId \<notin> seenSet seen" by (rule notin)
      show "set ?Nb \<subseteq> {j. idAdj w cubeId j}" using Nb by auto
      show "{j. idAdj w cubeId j} \<subseteq> set ?Nb \<union> seenSet seen \<union> set queue \<union> {cubeId}"
      proof
        fix j assume "j \<in> {j. idAdj w cubeId j}"
        then show "j \<in> set ?Nb \<union> seenSet seen \<union> set queue \<union> {cubeId}"
          using Nb zero by (cases "j = 0") auto
      qed
    qed
    have "cubeId \<notin> visitable w (insert cubeId (seenSet seen)) (set queue \<union> set ?Nb)"
      using visitable_props by blast
    then have "card (visitable w (seenSet seen) (insert cubeId (set queue)))
        = Suc (card (visitable w (insert cubeId (seenSet seen)) (set queue \<union> set ?Nb)))"
      unfolding step by (simp add: finite_visitable)
    then show ?thesis
      using False lt IH by (simp add: seenSet_arrSet)
  qed
qed


definition idsOff :: "World \<Rightarrow> nat set \<Rightarrow> nat set" where
  "idsOff w X = {i. i < length (cubes w) \<and> i \<notin> X}"

definition cellsOff :: "World \<Rightarrow> nat set \<Rightarrow> Position set" where
  "cellsOff w X = (\<lambda>i. cube_p (cubes w ! i)) ` idsOff w X"

lemma sym_avoidRel: "sym (avoidRel w X)"
  unfolding sym_def avoidRel_def idAdj_def by (auto intro: adjacent_sym)

lemma avoidRel_sym_rtrancl:
  "(i, j) \<in> (avoidRel w X)\<^sup>* \<Longrightarrow> (j, i) \<in> (avoidRel w X)\<^sup>*"
  using sym_rtrancl[OF sym_avoidRel] by (meson symD)

lemma ids_to_cells:
  assumes "(i, j) \<in> (avoidRel w X)\<^sup>*" "i \<in> idsOff w X"
  shows "(cube_p (cubes w ! i), cube_p (cubes w ! j)) \<in> (adjOn (cellsOff w X))\<^sup>*"
  using assms(1)
proof (induction rule: rtrancl_induct)
  case base
  show ?case by simp
next
  case (step y z)
  from step.hyps(2) have "idAdj w y z" "y \<notin> X" "z \<notin> X"
    by (auto simp: avoidRel_def)
  then have "(cube_p (cubes w ! y), cube_p (cubes w ! z)) \<in> adjOn (cellsOff w X)"
    unfolding adjOn_def cellsOff_def idsOff_def idAdj_def by auto
  with step.IH show ?case by (rule rtrancl_into_rtrancl)
qed

lemma cells_to_ids:
  assumes "(a, b) \<in> (adjOn (cellsOff w X))\<^sup>*" "a = cube_p (cubes w ! i)" "i \<in> idsOff w X"
  shows "\<exists>j \<in> idsOff w X. b = cube_p (cubes w ! j) \<and> (i, j) \<in> (avoidRel w X)\<^sup>*"
  using assms(1)
proof (induction rule: rtrancl_induct)
  case base
  show ?case using assms(2,3) by blast
next
  case (step b c)
  from step.IH obtain j where j: "j \<in> idsOff w X" "b = cube_p (cubes w ! j)"
    "(i, j) \<in> (avoidRel w X)\<^sup>*" by blast
  from step.hyps(2) have c: "c \<in> cellsOff w X" and adj: "adjacent b c"
    by (auto simp: adjOn_def)
  from c obtain k where k: "k \<in> idsOff w X" "c = cube_p (cubes w ! k)"
    unfolding cellsOff_def by blast
  have "(j, k) \<in> avoidRel w X"
    using j(1,2) k adj unfolding avoidRel_def idAdj_def idsOff_def by simp
  with j(3) have "(i, k) \<in> (avoidRel w X)\<^sup>*" by (rule rtrancl_into_rtrancl)
  with k show ?case by blast
qed

lemma visitable_single:
  "visitable w X {s} = (if s \<in> idsOff w X then {v. (s, v) \<in> (avoidRel w X)\<^sup>*} else {})"
  unfolding visitable_def idsOff_def by auto

lemma visitable_subset_idsOff: "visitable w X Q \<subseteq> idsOff w X"
  using visitable_props unfolding idsOff_def by blast

lemma connected4_iff_visitable:
  assumes wf: "wf_world w" and s: "idsOff w X \<noteq> {} \<Longrightarrow> s \<in> idsOff w X"
  shows "connected4 (cellsOff w X) \<longleftrightarrow> visitable w X {s} = idsOff w X"
proof
  assume conn: "connected4 (cellsOff w X)"
  show "visitable w X {s} = idsOff w X"
  proof (intro equalityI subsetI)
    fix v assume "v \<in> visitable w X {s}"
    then show "v \<in> idsOff w X" using visitable_subset_idsOff by blast
  next
    fix j assume j: "j \<in> idsOff w X"
    then have sin: "s \<in> idsOff w X" using s by blast
    have "(cube_p (cubes w ! s), cube_p (cubes w ! j)) \<in> (adjOn (cellsOff w X))\<^sup>*"
      using conn sin j unfolding connected4_def cellsOff_def by blast
    from cells_to_ids[OF this refl sin]
    obtain j' where j': "j' \<in> idsOff w X" "cube_p (cubes w ! j) = cube_p (cubes w ! j')"
      "(s, j') \<in> (avoidRel w X)\<^sup>*" by blast
    have "j = j'"
      using wf j j'(1,2) unfolding idsOff_def by (auto intro: wf_inj)
    with j'(3) sin show "j \<in> visitable w X {s}"
      by (simp add: visitable_single)
  qed
next
  assume eq: "visitable w X {s} = idsOff w X"
  show "connected4 (cellsOff w X)"
    unfolding connected4_def
  proof (intro ballI)
    fix a b assume "a \<in> cellsOff w X" "b \<in> cellsOff w X"
    then obtain i j where i: "i \<in> idsOff w X" "a = cube_p (cubes w ! i)"
      and j: "j \<in> idsOff w X" "b = cube_p (cubes w ! j)"
      unfolding cellsOff_def by blast
    from i(1) have sin: "s \<in> idsOff w X" using s by blast
    from i(1) j(1) eq sin have "(s, i) \<in> (avoidRel w X)\<^sup>*" "(s, j) \<in> (avoidRel w X)\<^sup>*"
      by (auto simp: visitable_single split: if_splits)
    then have "(i, j) \<in> (avoidRel w X)\<^sup>*"
      using avoidRel_sym_rtrancl by (meson rtrancl_trans)
    from ids_to_cells[OF this i(1)] show "(a, b) \<in> (adjOn (cellsOff w X))\<^sup>*"
      using i(2) j(2) by simp
  qed
qed

lemma card_idsOff_empty: "card (idsOff w {}) = length (cubes w)"
  by (simp add: idsOff_def)

lemma card_idsOff_single:
  assumes "k < length (cubes w)"
  shows "card (idsOff w {k}) = length (cubes w) - 1"
proof -
  have "idsOff w {k} = {..<length (cubes w)} - {k}"
    unfolding idsOff_def by auto
  then show ?thesis using assms by simp
qed

lemma cellsOff_empty: "cellsOff w {} = occupied w"
proof -
  have "set (cubes w) = (\<lambda>i. cubes w ! i) ` {i. i < length (cubes w)}"
    by (auto simp: in_set_conv_nth)
  then show ?thesis
    unfolding cellsOff_def idsOff_def occupied_def by (simp add: image_image)
qed

lemma cellsOff_single:
  assumes "wf_world w" "getCubeId w s = Some k"
  shows "cellsOff w {k} = occupied w - {s}"
proof -
  from assms have k: "k < length (cubes w)" "cube_p (cubes w ! k) = s"
    using wf_getCubeId by auto
  show ?thesis
  proof (intro equalityI subsetI)
    fix a assume "a \<in> cellsOff w {k}"
    then obtain i where i: "i < length (cubes w)" "i \<noteq> k" "a = cube_p (cubes w ! i)"
      unfolding cellsOff_def idsOff_def by auto
    have "a \<noteq> s"
      using wf_inj[OF assms(1) i(1) k(1)] i(2,3) k(2) by auto
    moreover have "a \<in> occupied w"
      using i(1,3) unfolding occupied_def by auto
    ultimately show "a \<in> occupied w - {s}" by simp
  next
    fix a assume "a \<in> occupied w - {s}"
    then obtain i where i: "i < length (cubes w)" "a = cube_p (cubes w ! i)" and "a \<noteq> s"
      unfolding occupied_def by (auto simp: in_set_conv_nth)
    with k(2) have "i \<noteq> k" by auto
    with i show "a \<in> cellsOff w {k}"
      unfolding cellsOff_def idsOff_def by auto
  qed
qed

lemma card_eq_iff_visitable:
  "(card (idsOff w X) = card (visitable w X Q)) \<longleftrightarrow> visitable w X Q = idsOff w X"
proof -
  have fin: "finite (idsOff w X)" unfolding idsOff_def by simp
  show ?thesis
    using card_subset_eq[OF fin visitable_subset_idsOff] by metis
qed


lemma isConnected_no_skip:
  assumes wf: "wf_world w" and ne: "cubes w \<noteq> []"
    and sk: "(case skip of None \<Rightarrow> None | Some s \<Rightarrow> getCubeId w s) = None"
  shows "isConnected w skip = Inr (connected4 (occupied w))"
proof -
  let ?n = "length (cubes w)"
  have n0: "0 < ?n" using ne by simp
  have loop: "isConnectedLoop w (replicate ?n False) 0 [0]
      = Inr (0 + card (visitable w (seenSet (replicate ?n False)) (set [0])))"
    using wf n0 by (intro isConnectedLoop_correct) auto
  have res: "isConnected w skip = Inr (?n = card (visitable w {} {0}))"
    using ne sk loop by (simp add: isConnected_def seenSet_replicate)
  have "0 \<in> idsOff w {}" using n0 by (simp add: idsOff_def)
  then have "connected4 (cellsOff w {}) \<longleftrightarrow> visitable w {} {0} = idsOff w {}"
    using wf by (intro connected4_iff_visitable) simp
  also have "\<dots> \<longleftrightarrow> card (idsOff w {}) = card (visitable w {} {0})"
    by (simp add: card_eq_iff_visitable)
  finally show ?thesis
    using res by (simp add: cellsOff_empty card_idsOff_empty)
qed

lemma isConnected_skip:
  assumes wf: "wf_world w" and sk: "getCubeId w s = Some k"
  shows "isConnected w (Some s) = Inr (connected4 (occupied w - {s}))"
proof -
  let ?n = "length (cubes w)"
  from wf sk have k: "k < ?n" using wf_getCubeId by blast
  then have ne: "cubes w \<noteq> []" by auto
  define s0 :: nat where "s0 = (if k = 0 \<and> ?n > 1 then 1 else 0)"
  have q: "(if Some k = Some 0 \<and> ?n > 1 then [1] else [0]) = [s0]"
    by (simp add: s0_def)
  have s0n: "s0 < ?n" using k by (auto simp: s0_def)
  have loop: "isConnectedLoop w (arrSet (replicate ?n False) k) 1 [s0]
      = Inr (1 + card (visitable w (seenSet (arrSet (replicate ?n False) k)) (set [s0])))"
  proof (rule isConnectedLoop_correct)
    show "wf_world w" by (rule wf)
    show "0 \<in> seenSet (arrSet (replicate ?n False) k) \<union> set [s0]"
      by (auto simp: s0_def seenSet_arrSet)
    show "set [s0] \<subseteq> {..<?n}" using s0n by simp
  qed
  have res: "isConnected w (Some s) = Inr (?n = 1 + card (visitable w {k} {s0}))"
    using ne sk loop q by (simp add: isConnected_def seenSet_replicate seenSet_arrSet)
  have "idsOff w {k} \<noteq> {} \<Longrightarrow> s0 \<in> idsOff w {k}"
  proof -
    assume "idsOff w {k} \<noteq> {}"
    then obtain i where "i < ?n" "i \<noteq> k" unfolding idsOff_def by auto
    then show "s0 \<in> idsOff w {k}"
      using k unfolding idsOff_def s0_def by auto
  qed
  then have "connected4 (cellsOff w {k}) \<longleftrightarrow> visitable w {k} {s0} = idsOff w {k}"
    using wf by (intro connected4_iff_visitable)
  also have "\<dots> \<longleftrightarrow> card (idsOff w {k}) = card (visitable w {k} {s0})"
    by (simp add: card_eq_iff_visitable)
  also have "\<dots> \<longleftrightarrow> ?n = 1 + card (visitable w {k} {s0})"
    using k by (auto simp: card_idsOff_single)
  finally show ?thesis
    using res by (simp add: cellsOff_single[OF wf sk])
qed

lemma occupied_empty: "cubes w = [] \<Longrightarrow> occupied w = {}"
  by (simp add: occupied_def)

lemma connected4_empty: "connected4 {}"
  by (simp add: connected4_def)

lemma isConnected_correct:
  assumes wf: "wf_world w"
  shows "isConnected w skip
    = Inr (connected4 (occupied w - (case skip of None \<Rightarrow> {} | Some s \<Rightarrow> {s})))"
proof (cases "cubes w = []")
  case True
  then show ?thesis
    by (simp add: isConnected_def occupied_empty connected4_empty)
next
  case ne: False
  show ?thesis
  proof (cases skip)
    case None
    then show ?thesis using isConnected_no_skip[OF wf ne, of None] by simp
  next
    case (Some s)
    show ?thesis
    proof (cases "getCubeId w s")
      case None
      then have "\<not> hasCube w s" by (simp add: hasCube_def getCube_def)
      then have "s \<notin> occupied w" using wf_hasCube[OF wf] by simp
      then have "occupied w - {s} = occupied w" by simp
      then show ?thesis
        using isConnected_no_skip[OF wf ne, of "Some s"] None Some by simp
    next
      case (Some k)
      then show ?thesis using isConnected_skip[OF wf Some] \<open>skip = Some s\<close> by simp
    qed
  qed
qed


subsection \<open>The grid store keeps the invariant\<close>

lemma wf_emptyWorld: "wf_world emptyWorld"
  by (simp add: wf_world_def emptyWorld_def getCubeId_def)

lemma wf_not_hasCube:
  assumes "wf_world w" "\<not> hasCube w pp" "i < length (cubes w)"
  shows "cube_p (cubes w ! i) \<noteq> pp"
proof
  assume "cube_p (cubes w ! i) = pp"
  then have "pp \<in> occupied w"
    using assms(3) unfolding occupied_def by (metis length_map nth_map nth_mem)
  then show False using assms(1,2) wf_hasCube by blast
qed

lemma wf_addCubeUnmarked:
  assumes wf: "wf_world w" and add: "addCubeUnmarked w pp c = Inr w'"
  shows "wf_world w'"
proof -
  from add have free: "\<not> hasCube w pp"
    and w': "w' = w\<lparr>world := fmupd pp (length (cubes w)) (world w),
                     cubes := cubes w @ [newCube pp c]\<rparr>"
    by (auto simp: addCubeUnmarked_def split: if_splits)
  show ?thesis
    unfolding wf_world_def
  proof (intro allI)
    fix q i
    show "getCubeId w' q = Some i \<longleftrightarrow> (i < length (cubes w') \<and> cube_p (cubes w' ! i) = q)"
    proof (cases "q = pp")
      case True
      have "i < length (cubes w) \<Longrightarrow> cube_p (cubes w ! i) \<noteq> pp"
        using wf_not_hasCube[OF wf free] by blast
      then show ?thesis
        using True unfolding w' getCubeId_def
        by (auto simp: nth_append newCube_def less_Suc_eq)
    next
      case False
      have "getCubeId w q = Some i \<longleftrightarrow> (i < length (cubes w) \<and> cube_p (cubes w ! i) = q)"
        using wf by (rule wf_getCubeId)
      then show ?thesis
        using False unfolding w' getCubeId_def
        by (auto simp: nth_append newCube_def less_Suc_eq)
    qed
  qed
qed

lemma occupied_addCubeUnmarked:
  assumes "addCubeUnmarked w pp c = Inr w'"
  shows "occupied w' = insert pp (occupied w)"
  using assms by (auto simp: addCubeUnmarked_def occupied_def newCube_def split: if_splits)

lemma wf_moveCubeUnmarked:
  assumes wf: "wf_world w" and mv: "moveCubeUnmarked w from to = Inr w'"
  shows "wf_world w' \<and> occupied w' = insert to (occupied w - {from})"
proof -
  from mv obtain k where src: "hasCube w from" and free: "\<not> hasCube w to"
    and k: "getCubeId w from = Some k"
    and w': "w' = w\<lparr>world := fmupd to k (fmdrop from (world w)),
                     cubes := (cubes w)[k := (cubes w ! k)\<lparr>cube_p := to\<rparr>]\<rparr>"
    by (auto simp: moveCubeUnmarked_def split: if_splits option.splits)
  from wf k have kn: "k < length (cubes w)" and kp: "cube_p (cubes w ! k) = from"
    using wf_getCubeId by auto
  have neq: "from \<noteq> to" using src free by auto
  have other: "cube_p (cubes w ! i) \<noteq> to" if "i < length (cubes w)" for i
    using wf_not_hasCube[OF wf free that] .
  have inj: "cube_p (cubes w ! i) = from \<longleftrightarrow> i = k" if "i < length (cubes w)" for i
    using wf_inj[OF wf that kn] kp by auto
  have wf': "wf_world w'"
    unfolding wf_world_def
  proof (intro allI)
    fix q i
    have old: "getCubeId w q = Some i \<longleftrightarrow> (i < length (cubes w) \<and> cube_p (cubes w ! i) = q)"
      using wf by (rule wf_getCubeId)
    show "getCubeId w' q = Some i \<longleftrightarrow> (i < length (cubes w') \<and> cube_p (cubes w' ! i) = q)"
    proof (cases "q = to")
      case True
      then show ?thesis
        using other kn unfolding w' getCubeId_def
        by (auto simp: nth_list_update)
    next
      case qt: False
      show ?thesis
      proof (cases "q = from")
        case True
        then show ?thesis
          using neq inj kn unfolding w' getCubeId_def
          by (auto simp: nth_list_update)
      next
        case qf: False
        have lk: "getCubeId w' q = getCubeId w q"
          using qt qf unfolding w' getCubeId_def by simp
        show ?thesis
        proof (cases "i = k")
          case True
          then show ?thesis
            using lk old kp qf qt kn unfolding w' by auto
        next
          case False
          then have "cube_p (cubes w' ! i) = cube_p (cubes w ! i)"
            unfolding w' by simp
          moreover have "length (cubes w') = length (cubes w)"
            unfolding w' by simp
          ultimately show ?thesis
            using lk old by simp
        qed
      qed
    qed
  qed
  have "occupied w' = insert to (occupied w - {from})"
  proof (intro equalityI subsetI)
    fix q assume "q \<in> occupied w'"
    then obtain i where i: "i < length (cubes w)" "q = cube_p (cubes w' ! i)"
      unfolding occupied_def w' by (auto simp: in_set_conv_nth)
    show "q \<in> insert to (occupied w - {from})"
    proof (cases "i = k")
      case True
      then show ?thesis using i kn unfolding w' by simp
    next
      case False
      then have "q = cube_p (cubes w ! i)" using i unfolding w' by simp
      moreover have "q \<noteq> from" using inj[OF i(1)] False calculation by simp
      ultimately show ?thesis using i(1) unfolding occupied_def by auto
    qed
  next
    fix q assume q: "q \<in> insert to (occupied w - {from})"
    show "q \<in> occupied w'"
    proof (cases "q = to")
      case True
      have "cube_p (cubes w' ! k) = to" "k < length (cubes w')"
        using kn unfolding w' by simp_all
      then show ?thesis unfolding occupied_def True by (metis length_map nth_map nth_mem)
    next
      case False
      with q obtain i where i: "i < length (cubes w)" "q = cube_p (cubes w ! i)" "q \<noteq> from"
        unfolding occupied_def by (auto simp: in_set_conv_nth)
      then have "i \<noteq> k" using kp by auto
      then have "cube_p (cubes w' ! i) = q" "i < length (cubes w')"
        using i unfolding w' by simp_all
      then show ?thesis unfolding occupied_def by (metis length_map nth_map nth_mem)
    qed
  qed
  with wf' show ?thesis by simp
qed


subsection \<open>Example configurations\<close>

text \<open>A new world after \<^verbatim>\<open>addCubeUnmarked\<close> for each of the given cells, in this order (the empty
  world when a cell repeats).\<close>

definition buildWorld :: "Position list \<Rightarrow> error + World" where
  "buildWorld ps = foldE (\<lambda>pp w. addCubeUnmarked w pp BLUE) ps emptyWorld"

definition theWorld :: "Position list \<Rightarrow> World" where
  "theWorld ps = (case buildWorld ps of Inl e \<Rightarrow> emptyWorld | Inr w \<Rightarrow> w)"

lemma wf_foldE_add:
  "wf_world w \<Longrightarrow> foldE (\<lambda>pp w. addCubeUnmarked w pp BLUE) ps w = Inr w' \<Longrightarrow> wf_world w'"
proof (induction ps arbitrary: w)
  case Nil
  then show ?case by simp
next
  case (Cons q ps)
  from Cons.prems(2) obtain w1 where 1: "addCubeUnmarked w q BLUE = Inr w1"
    and 2: "foldE (\<lambda>pp w. addCubeUnmarked w pp BLUE) ps w1 = Inr w'"
    by (auto split: sum.splits)
  from wf_addCubeUnmarked[OF Cons.prems(1) 1] 2 show ?case
    by (rule Cons.IH)
qed

lemma wf_theWorld: "wf_world (theWorld ps)"
proof (cases "buildWorld ps")
  case (Inl e)
  then show ?thesis by (simp add: theWorld_def wf_emptyWorld)
next
  case (Inr w)
  then have "wf_world w"
    unfolding buildWorld_def using wf_foldE_add[OF wf_emptyWorld] by blast
  with Inr show ?thesis by (simp add: theWorld_def)
qed

text \<open>The U-shape and a pair of cubes.\<close>

definition ushape :: "Position list" where
  "ushape = [(0, 0), (1, 0), (2, 0), (0, 1), (2, 1)]"

definition twoCubes :: "Position list" where
  "twoCubes = [(0, 0), (1, 0)]"

subsection \<open>Legal moves keep the configuration connected\<close>

lemma adjOn_mono: "A \<subseteq> B \<Longrightarrow> adjOn A \<subseteq> adjOn B"
  unfolding adjOn_def by auto

lemma connected4_insert:
  assumes conn: "connected4 A" and a: "a \<in> A" and adj: "adjacent t a"
  shows "connected4 (insert t A)"
proof -
  let ?B = "insert t A"
  have sub: "(adjOn A)\<^sup>* \<subseteq> (adjOn ?B)\<^sup>*"
    by (intro rtrancl_mono adjOn_mono) auto
  have ta: "(t, a) \<in> adjOn ?B" and at: "(a, t) \<in> adjOn ?B"
    using a adj adjacent_sym unfolding adjOn_def by auto
  have to_a: "(x, a) \<in> (adjOn ?B)\<^sup>*" if "x \<in> ?B" for x
  proof (cases "x = t")
    case True
    then show ?thesis using ta by auto
  next
    case False
    with that have "x \<in> A" by simp
    then have "(x, a) \<in> (adjOn A)\<^sup>*" using conn a unfolding connected4_def by blast
    with sub show ?thesis by blast
  qed
  have from_a: "(a, y) \<in> (adjOn ?B)\<^sup>*" if "y \<in> ?B" for y
  proof (cases "y = t")
    case True
    then show ?thesis using at by auto
  next
    case False
    with that have "y \<in> A" by simp
    then have "(a, y) \<in> (adjOn A)\<^sup>*" using conn a unfolding connected4_def by blast
    with sub show ?thesis by blast
  qed
  show ?thesis
    unfolding connected4_def
    using to_a from_a by (meson rtrancl_trans)
qed

lemma isValid_iff:
  assumes "wf_world w"
  shows "isValid w m = Inr (isValidIgnoreConnectivity w m \<and> connected4 (occupied w - {position m}))"
  using isConnected_correct[OF assms, of "Some (position m)"]
  by (simp add: isValid_def)

lemma isValidIgnoreConnectivity_target_free:
  "isValidIgnoreConnectivity w m \<Longrightarrow> \<not> hasCube w (targetPosition m)"
  by (auto simp: isValidIgnoreConnectivity_def hasCube_def split: if_splits)

lemma valid_support:
  assumes "isValidIgnoreConnectivity w m"
  shows "\<exists>q. adjacent (targetPosition m) q \<and> q \<noteq> position m \<and> hasCube w q"
proof -
  obtain x y where pm: "position m = (x, y)" by (cases "position m")
  have m: "m = \<lparr>position = (x, y), direction = direction m\<rparr>"
    using pm Move_eq[of m] by simp
  from assms m have "isValidIgnoreConnectivity w \<lparr>position = (x, y), direction = direction m\<rparr>"
    by simp
  from valid_target_has_neighbor[OF this] m pm
  obtain q where "q \<in> set (neighborCells (targetPosition m))" "q \<noteq> position m" "hasCube w q"
    by auto
  then show ?thesis
    using adjacent_neighborCells by blast
qed

subsection \<open>Instances and round trips\<close>

text \<open>The instance file with the given cells, in this order, without colours.\<close>

definition instanceOf :: "Position list \<Rightarrow> WorldJson" where
  "instanceOf ps =
     \<lparr>jsonVersion = Some 1,
      jsonCubes = map (\<lambda>pp. \<lparr>jsonX = fst pp, jsonY = snd pp, jsonColor = None\<rparr>) ps\<rparr>"

text \<open>The cell and the tag of every cube of a loaded world.\<close>

definition classification :: "error + World \<Rightarrow> error + (Position \<times> ComponentStatus) list" where
  "classification r = map_sum id (\<lambda>w. map (\<lambda>c. (cube_p c, componentStatus c)) (cubes w)) r"

definition isolatedCube :: "Position list" where
  "isolatedCube = [(2, 2), (0, 0), (1, 0), (2, 0)]"

text \<open>\<^verbatim>\<open>deserialize(serialize(w))\<close> into an empty world.\<close>

definition roundTrip :: "World \<Rightarrow> error + World" where
  "roundTrip w = deserialize emptyWorld (serialize w)"

text \<open>A cube is added at \<open>(0, 0)\<close> and moved to \<open>(1, 0)\<close>, then a second cube is added at
  \<open>(0, 0)\<close>.\<close>

definition movedWorld :: "error + World" where
  "movedWorld =
     (case addCube emptyWorld (0, 0) BLUE of
        Inl e \<Rightarrow> Inl e
      | Inr w1 \<Rightarrow>
          (case moveCube w1 (0, 0) (1, 0) of
             Inl e \<Rightarrow> Inl e
           | Inr w2 \<Rightarrow> addCube w2 (0, 0) BLUE))"


subsection \<open>The outside walk\<close>

definition dirs4 :: "string set" where
  "dirs4 = {''N'', ''E'', ''S'', ''W''}"

definition opp :: "string \<Rightarrow> string" where
  "opp d = (if d = ''N'' then ''S'' else if d = ''E'' then ''W''
            else if d = ''S'' then ''N'' else ''E'')"

lemma dirs4_cases:
  assumes "d \<in> dirs4"
  obtains "d = ''N''" | "d = ''E''" | "d = ''S''" | "d = ''W''"
  using assms unfolding dirs4_def by blast

lemma opp_dirs4: "d \<in> dirs4 \<Longrightarrow> opp d \<in> dirs4"
  by (erule dirs4_cases) (simp_all add: opp_def dirs4_def)

lemma walkStep_opp: "d \<in> dirs4 \<Longrightarrow> walkStep (opp d) (walkStep d pp) = pp"
  by (erule dirs4_cases; cases pp) (simp_all add: opp_def walkStep_def)

lemma walkStep_inj: "d \<in> dirs4 \<Longrightarrow> walkStep d p1 = walkStep d p2 \<Longrightarrow> p1 = p2"
  by (erule dirs4_cases; cases p1; cases p2) (simp_all add: walkStep_def)

lemma hasNeighbors_walkStep:
  "d \<in> dirs4 \<Longrightarrow> hasNeighbors w pp d = hasCube w (walkStep d pp)"
  by (erule dirs4_cases; cases pp) (simp_all add: hasNeighbors_simps walkStep_def)

lemma nextOnOutside_Inr:
  assumes "d \<in> dirs4"
  shows "\<exists>r. nextOnOutside w pp d = Inr r"
  using assms by (elim dirs4_cases) (simp_all add: nextOnOutside_def bends_def)

lemma nextOnOutside_Some:
  assumes "nextOnOutside w pp d = Inr (Some d')"
  shows "d' \<in> dirs4 \<and> hasCube w (walkStep d' pp)"
proof -
  have d': "d' \<in> dirs4"
    using nextOnOutside_dir[OF assms] by (simp add: dirs4_def)
  from assms obtain ds where "find (hasNeighbors w pp) ds = Some d'"
    by (auto simp: nextOnOutside_def split: option.splits)
  then have "hasNeighbors w pp d'"
    by (auto simp: find_Some_iff)
  with d' show ?thesis by (simp add: hasNeighbors_walkStep)
qed

lemma nextOnOutside_None:
  assumes "d \<in> dirs4" "nextOnOutside w pp d = Inr None"
  shows "\<not> hasNeighbors w pp (opp d)"
  using assms
  by (elim dirs4_cases) (auto simp: nextOnOutside_def bends_def opp_def split: if_splits)

lemma nextOnOutside_inj:
  assumes d1: "d1 \<in> dirs4" and d2: "d2 \<in> dirs4"
    and n1: "nextOnOutside w pp d1 = Inr (Some d')"
    and n2: "nextOnOutside w pp d2 = Inr (Some d')"
    and h1: "hasNeighbors w pp (opp d1)" and h2: "hasNeighbors w pp (opp d2)"
  shows "d1 = d2"
  using d1 d2 n1 n2 h1 h2
  by (elim dirs4_cases)
     (auto simp: nextOnOutside_def bends_def opp_def split: if_splits)


text \<open>The ids and edges of a walk that starts at a cell: each id is the cube of the cell
  reached so far, each edge leaves that cell in one of the four directions, and the next cell
  is one step along the edge.\<close>

fun walkTrace :: "World \<Rightarrow> Position \<Rightarrow> nat list \<Rightarrow> (Position \<times> string) list \<Rightarrow> bool" where
  "walkTrace w pos [i] [] = (getCubeId w pos = Some i)"
| "walkTrace w pos (i # ids) (e # es) =
     (getCubeId w pos = Some i \<and> fst e = pos \<and> snd e \<in> dirs4
        \<and> walkTrace w (walkStep (snd e) pos) ids es)"
| "walkTrace w pos ids es = False"

definition dart :: "World \<Rightarrow> Position \<times> string \<Rightarrow> bool" where
  "dart w e = (snd e \<in> dirs4 \<and> hasCube w (fst e) \<and> hasCube w (walkStep (snd e) (fst e)))"

definition succEdge :: "World \<Rightarrow> Position \<times> string \<Rightarrow> Position \<times> string" where
  "succEdge w e =
     (let q = walkStep (snd e) (fst e) in
      case nextOnOutside w q (snd e) of
        Inr (Some d') \<Rightarrow> (q, d')
      | _ \<Rightarrow> (q, snd e))"

definition chained :: "World \<Rightarrow> (Position \<times> string) list \<Rightarrow> bool" where
  "chained w es = (\<forall>k. Suc k < length es \<longrightarrow> es ! Suc k = succEdge w (es ! k))"

definition walkInv :: "World \<Rightarrow> Position \<Rightarrow> string \<Rightarrow> (Position \<times> string) list \<Rightarrow> bool" where
  "walkInv w pos d es =
     (es = [] \<or> (distinct es \<and> chained w es \<and> (\<forall>e \<in> set es. dart w e)
        \<and> pos = walkStep (snd (last es)) (fst (last es)) \<and> d = snd (last es)))"

declare outsideLoop.simps [simp del]

lemma dart_back:
  assumes "dart w e"
  shows "hasNeighbors w (walkStep (snd e) (fst e)) (opp (snd e))"
proof -
  from assms have d: "snd e \<in> dirs4" and h: "hasCube w (fst e)"
    by (auto simp: dart_def)
  have "hasNeighbors w (walkStep (snd e) (fst e)) (opp (snd e))
      = hasCube w (walkStep (opp (snd e)) (walkStep (snd e) (fst e)))"
    using opp_dirs4[OF d] by (rule hasNeighbors_walkStep)
  with h d show ?thesis by (simp add: walkStep_opp)
qed

lemma succEdge_next:
  assumes "dart w e"
  shows "\<exists>d'. nextOnOutside w (walkStep (snd e) (fst e)) (snd e) = Inr (Some d')
            \<and> succEdge w e = (walkStep (snd e) (fst e), d')"
proof -
  from assms have d: "snd e \<in> dirs4" by (simp add: dart_def)
  from nextOnOutside_Inr[OF d] obtain r where
    r: "nextOnOutside w (walkStep (snd e) (fst e)) (snd e) = Inr r" by blast
  have "r \<noteq> None"
  proof
    assume "r = None"
    with r have "nextOnOutside w (walkStep (snd e) (fst e)) (snd e) = Inr None" by simp
    from nextOnOutside_None[OF d this] dart_back[OF assms] show False by simp
  qed
  then obtain d' where "r = Some d'" by blast
  with r show ?thesis by (simp add: succEdge_def)
qed

lemma succEdge_inj:
  assumes e1: "dart w e1" and e2: "dart w e2" and eq: "succEdge w e1 = succEdge w e2"
  shows "e1 = e2"
proof -
  from succEdge_next[OF e1] obtain a where
    a: "nextOnOutside w (walkStep (snd e1) (fst e1)) (snd e1) = Inr (Some a)"
       "succEdge w e1 = (walkStep (snd e1) (fst e1), a)" by blast
  from succEdge_next[OF e2] obtain b where
    b: "nextOnOutside w (walkStep (snd e2) (fst e2)) (snd e2) = Inr (Some b)"
       "succEdge w e2 = (walkStep (snd e2) (fst e2), b)" by blast
  from eq a(2) b(2) have q: "walkStep (snd e1) (fst e1) = walkStep (snd e2) (fst e2)"
    and ab: "a = b" by simp_all
  from e1 e2 have d1: "snd e1 \<in> dirs4" and d2: "snd e2 \<in> dirs4"
    by (simp_all add: dart_def)
  have "snd e1 = snd e2"
  proof (rule nextOnOutside_inj[OF d1 d2])
    show "nextOnOutside w (walkStep (snd e1) (fst e1)) (snd e1) = Inr (Some a)" by (rule a(1))
    show "nextOnOutside w (walkStep (snd e1) (fst e1)) (snd e2) = Inr (Some a)"
      using b(1) q ab by simp
    show "hasNeighbors w (walkStep (snd e1) (fst e1)) (opp (snd e1))"
      by (rule dart_back[OF e1])
    show "hasNeighbors w (walkStep (snd e1) (fst e1)) (opp (snd e2))"
      using dart_back[OF e2] q by simp
  qed
  moreover from this q d1 have "fst e1 = fst e2"
    using walkStep_inj by metis
  ultimately show ?thesis by (simp add: prod_eq_iff)
qed

lemma walkInv_revisit:
  assumes inv: "walkInv w pos d es" and ne: "es \<noteq> []"
    and new: "newEdge = succEdge w (last es)" and mem: "newEdge \<in> set es"
  shows "newEdge = hd es"
proof -
  from inv ne have dist: "distinct es" and ch: "chained w es"
    and darts: "\<forall>e \<in> set es. dart w e"
    by (auto simp: walkInv_def)
  from mem obtain j where j: "j < length es" "es ! j = newEdge"
    by (auto simp: in_set_conv_nth)
  show ?thesis
  proof (cases j)
    case 0
    with j ne show ?thesis by (simp add: hd_conv_nth)
  next
    case (Suc k)
    with j ch have "succEdge w (es ! k) = newEdge"
      by (auto simp: chained_def)
    with new have eq: "succEdge w (es ! k) = succEdge w (last es)" by simp
    have k: "k < length es" using j Suc by simp
    have "es ! k = last es"
      using succEdge_inj[OF _ _ eq] darts k ne by auto
    then have "es ! k = es ! (length es - 1)"
      using ne by (simp add: last_conv_nth)
    then have "k = length es - 1"
      using dist k ne by (simp add: nth_eq_iff_index_eq)
    with j Suc show ?thesis by simp
  qed
qed

lemma walkInv_extend:
  assumes inv: "walkInv w pos d es" and d: "d' \<in> dirs4"
    and h: "hasCube w pos" and h': "hasCube w (walkStep d' pos)"
    and new: "es \<noteq> [] \<Longrightarrow> (pos, d') = succEdge w (last es)"
    and fresh: "(pos, d') \<notin> set es"
  shows "walkInv w (walkStep d' pos) d' (es @ [(pos, d')])"
proof -
  have dart: "dart w (pos, d')" using d h h' by (simp add: dart_def)
  show ?thesis
  proof (cases "es = []")
    case True
    then show ?thesis using dart by (simp add: walkInv_def chained_def)
  next
    case False
    with inv have dist: "distinct es" and ch: "chained w es"
      and darts: "\<forall>e \<in> set es. dart w e"
      by (auto simp: walkInv_def)
    have "chained w (es @ [(pos, d')])"
      unfolding chained_def
    proof (intro allI impI)
      fix k assume k: "Suc k < length (es @ [(pos, d')])"
      show "(es @ [(pos, d')]) ! Suc k = succEdge w ((es @ [(pos, d')]) ! k)"
      proof (cases "Suc k < length es")
        case True
        then show ?thesis using ch by (simp add: chained_def nth_append)
      next
        case False
        with k have sk: "Suc k = length es" by simp
        then have "k = length es - 1" by simp
        then have "es ! k = last es"
          using \<open>es \<noteq> []\<close> by (simp add: last_conv_nth)
        then show ?thesis
          using new[OF \<open>es \<noteq> []\<close>] sk
          by (simp add: nth_append)
      qed
    qed
    with dist darts dart fresh show ?thesis
      by (simp add: walkInv_def)
  qed
qed


lemma wf_hasCube_id:
  assumes "wf_world w" "hasCube w pp"
  obtains i where "getCubeId w pp = Some i" "i < length (cubes w)" "cube_p (cubes w ! i) = pp"
proof -
  from assms(2) obtain i where i: "getCubeId w pp = Some i"
    by (auto simp: hasCube_def getCube_def split: option.splits)
  with assms(1) have "i < length (cubes w)" "cube_p (cubes w ! i) = pp"
    using wf_getCubeId by auto
  with i that show ?thesis by blast
qed

lemma outsideLoop_walk:
  "wf_world w \<Longrightarrow> hasCube w pos \<Longrightarrow> d \<in> dirs4 \<Longrightarrow> walkInv w pos d edgesSeen \<Longrightarrow>
   \<exists>ids' edges'. outsideLoop w pos d outside edgesSeen = Inr (outside @ ids', edgesSeen @ edges')
      \<and> walkTrace w pos ids' edges'
      \<and> distinct (edgesSeen @ edges')
      \<and> getCubeId w (case edgesSeen of [] \<Rightarrow> pos | e # es \<Rightarrow> fst e) = Some (last ids')"
proof (induction w pos d outside edgesSeen rule: outsideLoop.induct)
  case (1 w pos d outside edgesSeen)
  note wf = "1.prems"(1) and hc = "1.prems"(2) and d = "1.prems"(3) and inv = "1.prems"(4)
  from wf hc obtain i where i: "getCubeId w pos = Some i" "i < length (cubes w)"
    "cube_p (cubes w ! i) = pos" by (rule wf_hasCube_id)
  from nextOnOutside_Inr[OF d] obtain r where r: "nextOnOutside w pos d = Inr r" by blast
  have dist: "distinct edgesSeen" using inv by (auto simp: walkInv_def)
  show ?case
  proof (cases r)
    case None
    have res: "outsideLoop w pos d outside edgesSeen = Inr (outside @ [i], edgesSeen)"
      by (subst outsideLoop.simps) (simp add: i r None)
    have "edgesSeen = []"
    proof (rule ccontr)
      assume ne: "edgesSeen \<noteq> []"
      with inv have "dart w (last edgesSeen)"
        and "pos = walkStep (snd (last edgesSeen)) (fst (last edgesSeen))"
        and "d = snd (last edgesSeen)"
        by (auto simp: walkInv_def)
      then have "hasNeighbors w pos (opp d)" using dart_back by metis
      with nextOnOutside_None[OF d] r None show False by simp
    qed
    with res i dist show ?thesis by simp
  next
    case (Some d')
    from nextOnOutside_Some[of w pos d d'] r Some
    have d': "d' \<in> dirs4" and h': "hasCube w (walkStep d' pos)" by simp_all
    let ?new = "(pos, d')"
    have new: "?new = succEdge w (last edgesSeen)" if "edgesSeen \<noteq> []"
    proof -
      from inv that have "pos = walkStep (snd (last edgesSeen)) (fst (last edgesSeen))"
        and "d = snd (last edgesSeen)"
        by (auto simp: walkInv_def)
      then show ?thesis using r Some by (simp add: succEdge_def)
    qed
    show ?thesis
    proof (cases "?new \<in> set edgesSeen")
      case True
      have res: "outsideLoop w pos d outside edgesSeen = Inr (outside @ [i], edgesSeen)"
        using True by (subst outsideLoop.simps) (simp add: i r Some)
      from True have ne: "edgesSeen \<noteq> []" by auto
      from walkInv_revisit[OF inv ne new[OF ne] True] have "fst (hd edgesSeen) = pos"
        by (metis fst_conv)
      then have "getCubeId w (case edgesSeen of [] \<Rightarrow> pos | e # es \<Rightarrow> fst e) = Some i"
        using ne i(1) by (cases edgesSeen) simp_all
      with res i dist show ?thesis by simp
    next
      case False
      have res: "outsideLoop w pos d outside edgesSeen
          = outsideLoop w (walkStep d' pos) d' (outside @ [i]) (edgesSeen @ [?new])"
        using False by (subst outsideLoop.simps) (simp add: i r Some)
      have inv': "walkInv w (walkStep d' pos) d' (edgesSeen @ [?new])"
        using inv d' hc h' new False by (rule walkInv_extend)
      have newEdge: "(cube_p (cubes w ! i), d') \<notin> set edgesSeen" using False i(3) by simp
      from "1.IH"[OF i(1) _ r Some refl newEdge wf h' d'] i(2) inv' i(3)
      obtain ids'' edges'' where
        rec: "outsideLoop w (walkStep d' pos) d' (outside @ [i]) (edgesSeen @ [?new])
            = Inr ((outside @ [i]) @ ids'', (edgesSeen @ [?new]) @ edges'')"
        and tr: "walkTrace w (walkStep d' pos) ids'' edges''"
        and di: "distinct ((edgesSeen @ [?new]) @ edges'')"
        and la: "getCubeId w (case edgesSeen @ [?new] of [] \<Rightarrow> walkStep d' pos | e # es \<Rightarrow> fst e)
            = Some (last ids'')"
        by auto
      have ne'': "ids'' \<noteq> []" using tr by (cases ids'') auto
      have 1: "outsideLoop w pos d outside edgesSeen
          = Inr (outside @ (i # ids''), edgesSeen @ (?new # edges''))"
        using res rec by simp
      have 2: "walkTrace w pos (i # ids'') (?new # edges'')"
        using tr i(1) d' by simp
      have 3: "distinct (edgesSeen @ (?new # edges''))" using di by simp
      have 4: "getCubeId w (case edgesSeen of [] \<Rightarrow> pos | e # es \<Rightarrow> fst e)
          = Some (last (i # ids''))"
        using la ne'' by (cases edgesSeen) simp_all
      from 1 2 3 4 show ?thesis by blast
    qed
  qed
qed


lemma listMin_Min: "xs \<noteq> [] \<Longrightarrow> listMin xs = Min (set xs)"
proof (cases xs)
  case Nil
  then show "xs \<noteq> [] \<Longrightarrow> ?thesis" by simp
next
  case (Cons x ys)
  show ?thesis
    unfolding Cons using Min.set_eq_fold[of x ys] by simp
qed

lemma listMin_in: "xs \<noteq> [] \<Longrightarrow> listMin xs \<in> set xs"
  using Min_in[of "set xs"] by (simp add: listMin_Min)

lemma listMin_le: "x \<in> set xs \<Longrightarrow> listMin xs \<le> x"
  using Min_le[of "set xs" x] by (cases "xs = []") (simp_all add: listMin_Min)

lemma downmostLeftmostCell_props:
  assumes ne: "cubes w \<noteq> []"
  shows "\<exists>c \<in> set (cubes w). cube_p c = downmostLeftmostCell w
     \<and> (\<forall>c' \<in> set (cubes w). snd (cube_p c) \<le> snd (cube_p c')
            \<and> (snd (cube_p c') = snd (cube_p c) \<longrightarrow> fst (cube_p c) \<le> fst (cube_p c')))"
proof -
  let ?ys = "map (\<lambda>c. snd (cube_p c)) (cubes w)"
  let ?ly = "listMin ?ys"
  let ?row = "filter (\<lambda>c. snd (cube_p c) = ?ly) (cubes w)"
  let ?xs = "map (\<lambda>c. fst (cube_p c)) ?row"
  let ?lx = "listMin ?xs"
  have cell: "downmostLeftmostCell w = (?lx, ?ly)"
    by (simp add: downmostLeftmostCell_def Let_def)
  have "?ly \<in> set ?ys" using ne by (intro listMin_in) simp
  then have row_ne: "?row \<noteq> []"
    by (auto simp: filter_empty_conv)
  then have "?lx \<in> set ?xs" by (intro listMin_in) simp
  then obtain c where c: "c \<in> set ?row" "fst (cube_p c) = ?lx" by auto
  then have cin: "c \<in> set (cubes w)" and cy: "snd (cube_p c) = ?ly" by auto
  have p: "cube_p c = downmostLeftmostCell w"
    using c(2) cy cell by (simp add: prod_eq_iff)
  have "snd (cube_p c) \<le> snd (cube_p c')
          \<and> (snd (cube_p c') = snd (cube_p c) \<longrightarrow> fst (cube_p c) \<le> fst (cube_p c'))"
    if c': "c' \<in> set (cubes w)" for c'
  proof
    show "snd (cube_p c) \<le> snd (cube_p c')"
      unfolding cy using c' by (intro listMin_le) simp
    show "snd (cube_p c') = snd (cube_p c) \<longrightarrow> fst (cube_p c) \<le> fst (cube_p c')"
    proof
      assume "snd (cube_p c') = snd (cube_p c)"
      then have "c' \<in> set ?row" using c' cy by simp
      then have "fst (cube_p c') \<in> set ?xs" by (simp del: set_filter)
      then show "fst (cube_p c) \<le> fst (cube_p c')"
        unfolding c(2) by (rule listMin_le)
    qed
  qed
  with cin p show ?thesis by blast
qed

lemma downmostLeftmost_hasCube:
  assumes "wf_world w" "cubes w \<noteq> []"
  shows "hasCube w (downmostLeftmostCell w)"
proof -
  from downmostLeftmostCell_props[OF assms(2)] obtain c where
    "c \<in> set (cubes w)" "cube_p c = downmostLeftmostCell w" by blast
  then have "downmostLeftmostCell w \<in> cube_p ` set (cubes w)" by (metis imageI)
  then have "downmostLeftmostCell w \<in> occupied w"
    unfolding occupied_def by simp
  then show ?thesis using wf_hasCube[OF assms(1)] by simp
qed

lemma walkTrace_nonempty: "walkTrace w pos ids es \<Longrightarrow> ids \<noteq> []"
  by (cases ids) auto

lemma walkTrace_hd: "walkTrace w pos ids es \<Longrightarrow> getCubeId w pos = Some (hd ids)"
  by (cases ids; cases es; cases "tl ids") auto

lemma outsideWalk_cycle:
  assumes wf: "wf_world w" and ne: "cubes w \<noteq> []"
  shows "\<exists>ids edges. outsideWalk w = Inr (ids, edges)
     \<and> walkTrace w (downmostLeftmostCell w) ids edges
     \<and> distinct edges
     \<and> getCubeId w (downmostLeftmostCell w) = Some (hd ids)
     \<and> getCubeId w (downmostLeftmostCell w) = Some (last ids)"
proof -
  have hc: "hasCube w (downmostLeftmostCell w)"
    using wf ne by (rule downmostLeftmost_hasCube)
  have d: "''S'' \<in> dirs4" by (simp add: dirs4_def)
  have inv: "walkInv w (downmostLeftmostCell w) ''S'' []" by (simp add: walkInv_def)
  from outsideLoop_walk[OF wf hc d inv, of "[]"] ne
  obtain ids edges where "outsideWalk w = Inr (ids, edges)"
    "walkTrace w (downmostLeftmostCell w) ids edges" "distinct edges"
    "getCubeId w (downmostLeftmostCell w) = Some (last ids)"
    by (auto simp: outsideWalk_def)
  then show ?thesis using walkTrace_hd by blast
qed


lemma outsideCubes_cycle_aux:
  assumes wf: "wf_world w" and ne: "cubes w \<noteq> []"
  shows "\<exists>root outside ids edges.
      downmostLeftmost w = Some root
    \<and> outsideCubes w = Inr outside
    \<and> outside \<noteq> [] \<and> hd outside = root \<and> last outside = root
    \<and> outsideWalk w = Inr (ids, edges) \<and> outside = map (\<lambda>i. cubes w ! i) ids
    \<and> walkTrace w (cube_p root) ids edges
    \<and> distinct edges"
proof -
  from outsideWalk_cycle[OF wf ne] obtain ids edges where
    walk: "outsideWalk w = Inr (ids, edges)"
    and tr: "walkTrace w (downmostLeftmostCell w) ids edges"
    and dist: "distinct edges"
    and h: "getCubeId w (downmostLeftmostCell w) = Some (hd ids)"
    and l: "getCubeId w (downmostLeftmostCell w) = Some (last ids)"
    by blast
  from h wf have hn: "hd ids < length (cubes w)"
    and hp: "cube_p (cubes w ! hd ids) = downmostLeftmostCell w"
    using wf_getCubeId by auto
  have idne: "ids \<noteq> []" using tr by (rule walkTrace_nonempty)
  let ?root = "cubes w ! hd ids"
  let ?outside = "map (\<lambda>i. cubes w ! i) ids"
  have root: "downmostLeftmost w = Some ?root"
    using ne h hn by (simp add: downmostLeftmost_def getCube_def)
  have out: "outsideCubes w = Inr ?outside"
    using walk by (simp add: outsideCubes_def)
  have "last ids = hd ids" using h l by simp
  then have "hd ?outside = ?root" "last ?outside = ?root"
    using idne by (simp_all add: hd_map last_map)
  moreover have "walkTrace w (cube_p ?root) ids edges" using tr hp by simp
  ultimately show ?thesis
    using root out walk dist idne by blast
qed


subsection \<open>Marking never fails in a well-formed world\<close>

declare findCubeStabilityRecursive.simps [simp del]

lemma wf_neighbor_ids:
  assumes "wf_world w" "Some j \<in> set (map (getCubeId w) ps)"
  shows "j < length (cubes w)"
proof -
  from assms(2) obtain q where "getCubeId w q = Some j" by auto
  with assms(1) show ?thesis using wf_getCubeId by blast
qed

lemma dfs_no_error:
  "wf_world w \<Longrightarrow> i < length (cubes w) \<Longrightarrow> \<exists>a'. findCubeStabilityRecursive w i d a = Inr a'"
  "wf_world w \<Longrightarrow> (\<forall>j. Some j \<in> set cs \<longrightarrow> j < length (cubes w)) \<Longrightarrow>
     \<exists>r. visitNeighbors w i d cs cutCube childCount a = Inr r"
proof (induction w i d a and w i d cs cutCube childCount a
    rule: findCubeStabilityRecursive_visitNeighbors.induct)
  case (1 w i d a)
  let ?cs = "map (getCubeId w) (neighborCells (cube_p (cubes w ! i)))"
  let ?a1 = "a\<lparr>dfsSeen := arrSet (dfsSeen a) i, dfsDepth := (dfsDepth a)[i := d],
                dfsLow := (dfsLow a)[i := d]\<rparr>"
  have "\<forall>j. Some j \<in> set ?cs \<longrightarrow> j < length (cubes w)"
    using wf_neighbor_ids[OF "1.prems"(1)] by blast
  with "1.IH" "1.prems" obtain r where "visitNeighbors w i d ?cs False 0 ?a1 = Inr r"
    by blast
  then show ?case
    using "1.prems"(2)
    by (subst findCubeStabilityRecursive.simps) (auto split: prod.splits)
next
  case (2 w i d cutCube childCount a)
  show ?case by simp
next
  case (3 w i d c cs cutCube childCount a)
  note wf = "3.prems"(1)
  have rest: "\<forall>j. Some j \<in> set cs \<longrightarrow> j < length (cubes w)"
    using "3.prems"(2) by simp
  show ?case
  proof (cases c)
    case None
    with "3.IH"(1)[OF None wf rest] show ?thesis by simp
  next
    case (Some j)
    then have jn: "j < length (cubes w)" using "3.prems"(2) by simp
    show ?thesis
    proof (cases "arrGet (dfsSeen a) j")
      case False
      from "3.IH"(2)[OF Some False wf jn] obtain b where
        b: "findCubeStabilityRecursive w j (d + 1) (a\<lparr>dfsParent := (dfsParent a)[j := Some i]\<rparr>)
            = Inr b" by blast
      from "3.IH"(3)[OF Some False b wf rest] show ?thesis
        using Some False b by simp
    next
      case True
      show ?thesis
      proof (cases "Some j \<noteq> dfsParent a ! i")
        case neq: True
        from "3.IH"(4)[OF Some _ neq wf rest] True show ?thesis
          using Some neq by simp
      next
        case eq: False
        then have pe: "dfsParent a ! i = Some j" by simp
        from "3.IH"(5)[OF Some _ eq wf rest] True obtain r where
          r: "visitNeighbors w i d cs cutCube childCount a = Inr r" by blast
        have step: "visitNeighbors w i d (c # cs) cutCube childCount a
            = visitNeighbors w i d cs cutCube childCount a"
          unfolding Some using True pe by simp
        show ?thesis unfolding step using r by blast
      qed
    qed
  qed
qed

lemma findCubeStability_no_error:
  assumes "wf_world w"
  shows "\<exists>s. findCubeStability w = Inr s"
proof (cases "cubes w = []")
  case True
  then show ?thesis by (simp add: findCubeStability_def)
next
  case False
  then have "0 < length (cubes w)" by simp
  from dfs_no_error(1)[OF assms this] obtain a' where
    "findCubeStabilityRecursive w 0 0
       \<lparr>dfsSeen = replicate (length (cubes w)) False,
        dfsParent = replicate (length (cubes w)) None,
        dfsDepth = replicate (length (cubes w)) (- 1),
        dfsLow = replicate (length (cubes w)) (- 1),
        dfsStable = replicate (length (cubes w)) True\<rparr> = Inr a'"
    by blast
  then show ?thesis
    using False by (simp add: findCubeStability_def Let_def)
qed


lemma wf_cube_id:
  assumes "wf_world w" "c \<in> set (cubes w)"
  shows "\<exists>j. getCubeId w (cube_p c) = Some j \<and> j < length (cubes w)"
proof -
  from assms(2) obtain j where "j < length (cubes w)" "cubes w ! j = c"
    by (auto simp: in_set_conv_nth)
  then show ?thesis using wf_getCubeId_nth[OF assms(1)] by blast
qed

lemma componentsStep_no_error:
  assumes "wf_world w" "c \<in> set (cubes w)"
  shows "\<exists>st'. componentsStep w c st = Inr st'"
proof -
  obtain seen stack chunksSeen components chunkIds where
    st: "st = (seen, stack, chunksSeen, components, chunkIds)" by (cases st)
  from wf_cube_id[OF assms] obtain j where
    j: "getCubeId w (cube_p c) = Some j" "j < length (cubes w)" by blast
  show ?thesis
    unfolding st componentsStep_def
    using j by (simp add: Let_def split: prod.splits list.splits)
qed

lemma foldE_no_error:
  assumes "\<And>x st. x \<in> set xs \<Longrightarrow> \<exists>st'. f x st = Inr st'"
  shows "\<exists>st'. foldE f xs st = Inr st'"
  using assms
proof (induction xs arbitrary: st)
  case Nil
  show ?case by simp
next
  case (Cons x xs)
  from Cons.prems[of x st] obtain st1 where 1: "f x st = Inr st1" by auto
  from Cons.IH[of st1] Cons.prems obtain st2 where "foldE f xs st1 = Inr st2" by auto
  with 1 show ?case by simp
qed

lemma degree_getOneNeighbor:
  assumes "degree w c = 1"
  shows "getOneNeighbor w c \<noteq> None"
proof -
  obtain x y where p: "cube_p c = (x, y)" by (cases "cube_p c")
  show ?thesis
  proof
    assume "getOneNeighbor w c = None"
    then have "\<not> hasCube w (x + 1, y)" "\<not> hasCube w (x - 1, y)"
      "\<not> hasCube w (x, y + 1)" "\<not> hasCube w (x, y - 1)"
      using p by (auto simp: getOneNeighbor_def hasCube_def split: option.splits)
    then have "degree w c = 0"
      using p by (simp add: degree_def hasNeighbors_simps)
    with assms show False by simp
  qed
qed

lemma looseStep_no_error: "\<exists>st'. looseStep w i st = Inr st'"
proof -
  obtain components chunkIds where st: "st = (components, chunkIds)" by (cases st)
  show ?thesis
  proof (cases "components ! i = 1 \<and> degree w (cubes w ! i) = 1")
    case False
    then show ?thesis unfolding st looseStep_def by auto
  next
    case True
    then obtain nb where nb: "getOneNeighbor w (cubes w ! i) = Some nb"
      using degree_getOneNeighbor by blast
    show ?thesis
    proof (cases "componentAt w components (cube_p nb) = Some 3")
      case False
      then show ?thesis unfolding st looseStep_def using True nb by simp
    next
      case c3: True
      then obtain k where "getCubeId w (cube_p nb) = Some k"
        by (auto simp: componentAt_def split: option.splits)
      then show ?thesis
        unfolding st looseStep_def using True nb c3 by (simp add: Let_def)
    qed
  qed
qed


lemma walkTrace_ids:
  "walkTrace w pos ids es \<Longrightarrow> wf_world w \<Longrightarrow> \<forall>i \<in> set ids. i < length (cubes w)"
proof (induction w pos ids es rule: walkTrace.induct)
  case (1 w pos i)
  then show ?case using wf_getCubeId by auto
next
  case (2 w pos i ids e es)
  then show ?case using wf_getCubeId by auto
qed simp_all

lemma outsideCubes_in_cubes:
  assumes wf: "wf_world w" and ne: "cubes w \<noteq> []"
  shows "\<exists>outside. outsideCubes w = Inr outside \<and> outside \<noteq> []
           \<and> set outside \<subseteq> set (cubes w)"
proof -
  from outsideWalk_cycle[OF wf ne] obtain ids edges where
    walk: "outsideWalk w = Inr (ids, edges)"
    and tr: "walkTrace w (downmostLeftmostCell w) ids edges"
    by blast
  let ?outside = "map (\<lambda>i. cubes w ! i) ids"
  have 1: "outsideCubes w = Inr ?outside"
    using walk by (simp add: outsideCubes_def)
  have 2: "?outside \<noteq> []"
    using walkTrace_nonempty[OF tr] by simp
  have 3: "set ?outside \<subseteq> set (cubes w)"
    using walkTrace_ids[OF tr wf] by auto
  from 1 2 3 show ?thesis by blast
qed

lemma findComponents_no_error:
  assumes wf: "wf_world w"
  shows "\<exists>r. findComponents w = Inr r"
proof (cases "cubes w = []")
  case True
  then show ?thesis by (simp add: findComponents_def)
next
  case ne: False
  let ?n = "length (cubes w)"
  obtain c where conn: "isConnected w None = Inr c"
    using isConnected_correct[OF wf, of None] by blast
  show ?thesis
  proof (cases c)
    case False
    then show ?thesis using ne conn by (simp add: findComponents_def Let_def)
  next
    case True
    from outsideCubes_in_cubes[OF wf ne] obtain outside where
      o: "outsideCubes w = Inr outside" "outside \<noteq> []" "set outside \<subseteq> set (cubes w)"
      by blast
    have "\<exists>st'. foldE (componentsStep w) outside
        (replicate ?n False, [], 0, replicate ?n (- 1), replicate ?n (- 1)) = Inr st'"
      using o(3) componentsStep_no_error[OF wf] by (intro foldE_no_error) blast
    then obtain seen stack chunksSeen components1 chunkIds1 where
      f: "foldE (componentsStep w) outside
        (replicate ?n False, [], 0, replicate ?n (- 1), replicate ?n (- 1))
        = Inr (seen, stack, chunksSeen, components1, chunkIds1)"
      by (metis prod_cases5)
    from o(2) obtain origin rest where or: "outside = origin # rest" by (cases outside) auto
    with o(3) have "origin \<in> set (cubes w)" by auto
    from wf_cube_id[OF wf this] obtain originId where
      oid: "getCubeId w (cube_p origin) = Some originId" by blast
    have "\<exists>st'. foldE (looseStep w) [0..<?n] st = Inr st'" for st
      using looseStep_no_error by (intro foldE_no_error) blast
    then show ?thesis
      using ne conn True o(1) f or oid
      by (simp add: findComponents_def Let_def)
  qed
qed

lemma markComponents_result:
  assumes wf: "wf_world w"
  shows "\<exists>w'. markComponents w = Inr w' \<and> world w' = world w
     \<and> map cube_p (cubes w') = map cube_p (cubes w)
     \<and> map resetPosition (cubes w') = map resetPosition (cubes w)
     \<and> map color (cubes w') = map color (cubes w)"
proof -
  from findComponents_no_error[OF wf] obtain components chunkIds where
    1: "findComponents w = Inr (components, chunkIds)" by (metis surj_pair)
  from findCubeStability_no_error[OF wf] obtain stability where
    2: "findCubeStability w = Inr stability" by blast
  have "\<exists>ids edges. outsideWalk w = Inr (ids, edges)"
  proof (cases "cubes w = []")
    case True
    then show ?thesis by (simp add: outsideWalk_def)
  next
    case False
    from outsideWalk_cycle[OF wf False] show ?thesis by blast
  qed
  then obtain ids edges where 3: "outsideWalk w = Inr (ids, edges)" by blast
  let ?f = "\<lambda>i. (cubes w ! i)
     \<lparr>componentStatus := statusOf (components ! i) (stability ! i),
      chunkId := chunkIds ! i, onBoundary := (i \<in> set ids)\<rparr>"
  let ?w' = "w\<lparr>cubes := map ?f [0..<length (cubes w)]\<rparr>"
  have m: "markComponents w = Inr ?w'"
    using 1 2 3 by (simp add: markComponents_def)
  have "map cube_p (cubes ?w') = map cube_p (cubes w)"
    "map resetPosition (cubes ?w') = map resetPosition (cubes w)"
    "map color (cubes ?w') = map color (cubes w)"
    by (rule nth_equalityI; simp)+
  with m show ?thesis by (intro exI[of _ ?w']) simp
qed

lemma wf_world_cong:
  assumes "wf_world w" "world w' = world w" "map cube_p (cubes w') = map cube_p (cubes w)"
  shows "wf_world w'"
proof -
  have len: "length (cubes w') = length (cubes w)"
    using assms(3) by (metis length_map)
  have "cube_p (cubes w' ! i) = cube_p (cubes w ! i)" if "i < length (cubes w)" for i
    using assms(3) that len by (metis nth_map)
  then show ?thesis
    using assms(1,2) len unfolding wf_world_def getCubeId_def by auto
qed

lemma wf_markComponents:
  assumes "wf_world w" "markComponents w = Inr w'"
  shows "wf_world w'"
  using markComponents_result[OF assms(1)] assms wf_world_cong by auto


subsection \<open>What the loader accepts\<close>

text \<open>The cell and the colour that \<^verbatim>\<open>deserialize\<close> reads from an entry of \<^verbatim>\<open>cubes\<close>.\<close>

definition cellOf :: "CubeJson \<Rightarrow> Position" where
  "cellOf cj = (jsonX cj, jsonY cj)"

definition colorOf :: "CubeJson \<Rightarrow> Color" where
  "colorOf cj = (case jsonColor cj of None \<Rightarrow> BLUE | Some (r, g, b) \<Rightarrow> Color r g b)"

lemma addCube_free:
  assumes wf: "wf_world w" and free: "pp \<notin> occupied w"
  shows "\<exists>w'. addCube w pp c = Inr w' \<and> wf_world w'
     \<and> map cube_p (cubes w') = map cube_p (cubes w) @ [pp]
     \<and> map resetPosition (cubes w') = map resetPosition (cubes w) @ [pp]
     \<and> map color (cubes w') = map color (cubes w) @ [c]"
proof -
  from free have nh: "\<not> hasCube w pp" using wf_hasCube[OF wf] by simp
  let ?w1 = "w\<lparr>world := fmupd pp (length (cubes w)) (world w),
                cubes := cubes w @ [newCube pp c]\<rparr>"
  have add: "addCubeUnmarked w pp c = Inr ?w1"
    using nh by (simp add: addCubeUnmarked_def)
  have wf1: "wf_world ?w1" using wf add by (rule wf_addCubeUnmarked)
  from markComponents_result[OF wf1] obtain w' where
    m: "markComponents ?w1 = Inr w'" "world w' = world ?w1"
    "map cube_p (cubes w') = map cube_p (cubes ?w1)"
    "map resetPosition (cubes w') = map resetPosition (cubes ?w1)"
    "map color (cubes w') = map color (cubes ?w1)"
    by blast
  have "wf_world w'" using wf1 m(1) by (rule wf_markComponents)
  moreover have "addCube w pp c = Inr w'"
    using add m(1) by (simp add: addCube_def)
  ultimately show ?thesis
    using m(3,4,5) by (simp add: newCube_def)
qed

lemma addCube_occupied:
  assumes wf: "wf_world w" and occ: "pp \<in> occupied w"
  shows "addCube w pp c = Inl OccupiedCell"
  using wf_hasCube[OF wf] occ by (simp add: addCube_def addCubeUnmarked_def)

lemma occupied_map: "occupied w = set (map cube_p (cubes w))"
  by (simp add: occupied_def)

lemma deserialize_fold_ok:
  "wf_world w \<Longrightarrow> distinct (map cellOf cjs) \<Longrightarrow> set (map cellOf cjs) \<inter> occupied w = {} \<Longrightarrow>
   \<exists>w'. foldE deserializeCube cjs w = Inr w' \<and> wf_world w'
     \<and> map cube_p (cubes w') = map cube_p (cubes w) @ map cellOf cjs
     \<and> map resetPosition (cubes w') = map resetPosition (cubes w) @ map cellOf cjs
     \<and> map color (cubes w') = map color (cubes w) @ map colorOf cjs"
proof (induction cjs arbitrary: w)
  case Nil
  then show ?case by simp
next
  case (Cons cj cjs)
  have free: "cellOf cj \<notin> occupied w" using Cons.prems(3) by auto
  from addCube_free[OF Cons.prems(1) free, of "colorOf cj"] obtain w1 where
    w1: "addCube w (cellOf cj) (colorOf cj) = Inr w1" "wf_world w1"
    "map cube_p (cubes w1) = map cube_p (cubes w) @ [cellOf cj]"
    "map resetPosition (cubes w1) = map resetPosition (cubes w) @ [cellOf cj]"
    "map color (cubes w1) = map color (cubes w) @ [colorOf cj]"
    by blast
  have step: "deserializeCube cj w = Inr w1"
    using w1(1) by (simp add: deserializeCube_def cellOf_def colorOf_def)
  have "occupied w1 = insert (cellOf cj) (occupied w)"
    unfolding occupied_map w1(3) by auto
  then have disj: "set (map cellOf cjs) \<inter> occupied w1 = {}"
    using Cons.prems(2,3) by auto
  have dist: "distinct (map cellOf cjs)" using Cons.prems(2) by simp
  from Cons.IH[OF w1(2) dist disj] obtain w' where
    "foldE deserializeCube cjs w1 = Inr w'" "wf_world w'"
    "map cube_p (cubes w') = map cube_p (cubes w1) @ map cellOf cjs"
    "map resetPosition (cubes w') = map resetPosition (cubes w1) @ map cellOf cjs"
    "map color (cubes w') = map color (cubes w1) @ map colorOf cjs"
    by blast
  then show ?case
    using step w1(3,4,5) by simp
qed

lemma deserialize_fold_clash:
  "wf_world w \<Longrightarrow> \<not> (distinct (map cellOf cjs) \<and> set (map cellOf cjs) \<inter> occupied w = {}) \<Longrightarrow>
   foldE deserializeCube cjs w = Inl OccupiedCell"
proof (induction cjs arbitrary: w)
  case Nil
  then show ?case by simp
next
  case (Cons cj cjs)
  show ?case
  proof (cases "cellOf cj \<in> occupied w")
    case True
    from addCube_occupied[OF Cons.prems(1) True, of "colorOf cj"]
    have "deserializeCube cj w = Inl OccupiedCell"
      by (simp add: deserializeCube_def cellOf_def colorOf_def)
    then show ?thesis by simp
  next
    case False
    from addCube_free[OF Cons.prems(1) False, of "colorOf cj"] obtain w1 where
      w1: "addCube w (cellOf cj) (colorOf cj) = Inr w1" "wf_world w1"
      "map cube_p (cubes w1) = map cube_p (cubes w) @ [cellOf cj]"
      by blast
    have step: "deserializeCube cj w = Inr w1"
      using w1(1) by (simp add: deserializeCube_def cellOf_def colorOf_def)
    have occ1: "occupied w1 = insert (cellOf cj) (occupied w)"
      unfolding occupied_map w1(3) by auto
    have "\<not> (distinct (map cellOf cjs) \<and> set (map cellOf cjs) \<inter> occupied w1 = {})"
      using Cons.prems(2) False unfolding occ1 by auto
    from Cons.IH[OF w1(2) this] show ?thesis
      using step by simp
  qed
qed

lemma occupied_emptyWorld: "occupied emptyWorld = {}"
  by (simp add: occupied_def emptyWorld_def)

text \<open>The test \<^verbatim>\<open>obj['_version'] > 1\<close>; a missing version is \<^verbatim>\<open>undefined\<close>, which is not
  greater than 1.\<close>

definition versionRejected :: "WorldJson \<Rightarrow> bool" where
  "versionRejected obj = (case jsonVersion obj of None \<Rightarrow> False | Some v \<Rightarrow> v > 1)"

lemma deserialize_BadVersion:
  "versionRejected obj \<Longrightarrow> deserialize w obj = Inl BadVersion"
  by (simp add: deserialize_def versionRejected_def)

lemma deserialize_clash:
  assumes "\<not> versionRejected obj" "\<not> distinct (map cellOf (jsonCubes obj))"
  shows "deserialize emptyWorld obj = Inl OccupiedCell"
proof -
  from deserialize_fold_clash[OF wf_emptyWorld, of "jsonCubes obj"] assms(2)
  have "foldE deserializeCube (jsonCubes obj) emptyWorld = Inl OccupiedCell" by simp
  with assms(1) show ?thesis by (simp add: deserialize_def versionRejected_def)
qed

lemma deserialize_ok:
  assumes "\<not> versionRejected obj" "distinct (map cellOf (jsonCubes obj))"
  shows "\<exists>w. deserialize emptyWorld obj = Inr w \<and> wf_world w
     \<and> map cube_p (cubes w) = map cellOf (jsonCubes obj)
     \<and> map resetPosition (cubes w) = map cellOf (jsonCubes obj)
     \<and> map color (cubes w) = map colorOf (jsonCubes obj)"
proof -
  have e: "set (map cellOf (jsonCubes obj)) \<inter> occupied emptyWorld = {}"
    by (simp add: occupied_emptyWorld)
  have c: "cubes emptyWorld = []" by (simp add: emptyWorld_def)
  from deserialize_fold_ok[OF wf_emptyWorld assms(2) e] obtain w where
    "foldE deserializeCube (jsonCubes obj) emptyWorld = Inr w" "wf_world w"
    "map cube_p (cubes w) = map cellOf (jsonCubes obj)"
    "map resetPosition (cubes w) = map cellOf (jsonCubes obj)"
    "map color (cubes w) = map colorOf (jsonCubes obj)"
    unfolding c by auto
  with assms(1) show ?thesis by (simp add: deserialize_def versionRejected_def)
qed

lemma serialize_cells: "map cellOf (jsonCubes (serialize w)) = map resetPosition (cubes w)"
  by (simp add: serialize_def cellOf_def comp_def)

lemma serialize_colors: "map colorOf (jsonCubes (serialize w)) = map color (cubes w)"
  by (simp add: serialize_def colorOf_def comp_def split: Color.splits)

lemma serialize_version: "\<not> versionRejected (serialize w)"
  by (simp add: serialize_def versionRejected_def)

definition farApart :: "Position list" where
  "farApart = [(0, 0), (5, 5)]"

text \<open>Two cubes at \<open>(0, 0)\<close> and \<open>(1, 0)\<close>, the second one moved to \<open>(0, 1)\<close>.\<close>

definition cornerMoved :: World where
  "cornerMoved = projr (executeUnmarked (theWorld twoCubes) \<lparr>position = (1, 0), direction = NW\<rparr>)"


subsection \<open>Bridge capacity counts what the deleted cube cuts off\<close>

text \<open>The cells that can be reached from a cell of a set by steps between adjacent cells of
  the set.\<close>

definition reachableFrom :: "Position set \<Rightarrow> Position \<Rightarrow> Position set" where
  "reachableFrom A a = {q. a \<in> A \<and> (a, q) \<in> (adjOn A)\<^sup>*}"

lemma in_presentIds:
  "j \<in> set (presentIds w ps) \<longleftrightarrow> (\<exists>q \<in> set ps. getCubeId w q = Some j)"
proof (induction ps)
  case Nil
  show ?case by (simp add: presentIds_def)
next
  case (Cons q ps)
  have "presentIds w (q # ps)
      = (case getCubeId w q of None \<Rightarrow> [] | Some i \<Rightarrow> [i]) @ presentIds w ps"
    by (simp add: presentIds_def)
  then show ?case
    using Cons by (cases "getCubeId w q") auto
qed

lemma set_presentIds:
  assumes "wf_world w" "x < length (cubes w)"
  shows "set (presentIds w (neighborCells (cube_p (cubes w ! x)))) = {j. idAdj w x j}"
proof (intro equalityI subsetI)
  fix j assume "j \<in> set (presentIds w (neighborCells (cube_p (cubes w ! x))))"
  then obtain q where q: "q \<in> set (neighborCells (cube_p (cubes w ! x)))"
    and g: "getCubeId w q = Some j"
    unfolding in_presentIds by blast
  from g have "j < length (cubes w)" "cube_p (cubes w ! j) = q"
    using wf_getCubeId[OF assms(1)] by auto
  with q assms(2) have "idAdj w x j"
    by (simp add: idAdj_def adjacent_neighborCells)
  then show "j \<in> {j. idAdj w x j}" by simp
next
  fix j assume "j \<in> {j. idAdj w x j}"
  then have adj: "idAdj w x j" by simp
  then have jl: "j < length (cubes w)"
    and q: "cube_p (cubes w ! j) \<in> set (neighborCells (cube_p (cubes w ! x)))"
    by (auto simp: idAdj_def adjacent_neighborCells)
  have "getCubeId w (cube_p (cubes w ! j)) = Some j"
    using assms(1) jl by (rule wf_getCubeId_nth)
  with q show "j \<in> set (presentIds w (neighborCells (cube_p (cubes w ! x))))"
    unfolding in_presentIds by blast
qed

lemma bridgeCapacityLoop_correct:
  "wf_world w \<Longrightarrow> (\<forall>k. bId = Some k \<longrightarrow> k \<in> seenSet seen) \<Longrightarrow>
   set queue \<subseteq> {..<length (cubes w)} \<Longrightarrow>
   bridgeCapacityLoop w bId seen cubeCount queue
     = Inr (cubeCount + card (visitable w (seenSet seen) (set queue)))"
proof (induction w bId seen cubeCount queue rule: bridgeCapacityLoop.induct)
  case (1 w bId seen cubeCount)
  then show ?case by (simp add: visitable_def)
next
  case (2 w bId seen cubeCount cubeId queue)
  note wf = "2.prems"(1) and bseen = "2.prems"(2) and bound = "2.prems"(3)
  show ?case
  proof (cases "arrGet seen cubeId")
    case True
    then have in_seen: "cubeId \<in> seenSet seen" by (simp add: seenSet_def)
    have "set queue \<subseteq> {..<length (cubes w)}" using bound by simp
    from "2.IH"(1)[OF True wf bseen this]
    show ?thesis
      using True in_seen by (simp add: visitable_seen)
  next
    case False
    then have notin: "cubeId \<notin> seenSet seen" by (simp add: seenSet_def)
    have lt: "cubeId < length (cubes w)" using bound by simp
    let ?Nb = "presentIds w (neighborCells (cube_p (cubes w ! cubeId)))"
    have Nb: "set ?Nb = {j. idAdj w cubeId j}"
      using wf lt by (rule set_presentIds)
    have neq: "bId \<noteq> Some cubeId" using bseen notin by auto
    have bseen': "\<forall>k. bId = Some k \<longrightarrow> k \<in> seenSet (arrSet seen cubeId)"
      using bseen by (simp add: seenSet_arrSet)
    have bound': "set (queue @ ?Nb) \<subseteq> {..<length (cubes w)}"
      using bound Nb by (auto simp: idAdj_def)
    have IH: "bridgeCapacityLoop w bId (arrSet seen cubeId) (cubeCount + 1) (queue @ ?Nb)
      = Inr (cubeCount + 1 + card (visitable w (seenSet (arrSet seen cubeId)) (set (queue @ ?Nb))))"
      using "2.IH"(2)[OF False _ wf bseen' bound'] lt neq by simp
    have step: "visitable w (seenSet seen) (insert cubeId (set queue))
        = insert cubeId (visitable w (insert cubeId (seenSet seen)) (set queue \<union> set ?Nb))"
    proof (rule visitable_step)
      show "cubeId < length (cubes w)" by (rule lt)
      show "cubeId \<notin> seenSet seen" by (rule notin)
      show "set ?Nb \<subseteq> {j. idAdj w cubeId j}" using Nb by auto
      show "{j. idAdj w cubeId j} \<subseteq> set ?Nb \<union> seenSet seen \<union> set queue \<union> {cubeId}"
        using Nb by auto
    qed
    have "cubeId \<notin> visitable w (insert cubeId (seenSet seen)) (set queue \<union> set ?Nb)"
      using visitable_props by blast
    then have "card (visitable w (seenSet seen) (insert cubeId (set queue)))
        = Suc (card (visitable w (insert cubeId (seenSet seen)) (set queue \<union> set ?Nb)))"
      unfolding step by (simp add: finite_visitable)
    then show ?thesis
      using False lt IH neq by (simp add: seenSet_arrSet)
  qed
qed

lemma visitable_cells:
  assumes wf: "wf_world w" and r: "r < length (cubes w)"
  shows "(\<lambda>i. cube_p (cubes w ! i)) ` visitable w X {r}
     = reachableFrom (cellsOff w X) (cube_p (cubes w ! r))"
proof (cases "r \<in> X")
  case True
  then have "visitable w X {r} = {}" by (simp add: visitable_single idsOff_def)
  moreover have "cube_p (cubes w ! r) \<notin> cellsOff w X"
  proof
    assume "cube_p (cubes w ! r) \<in> cellsOff w X"
    then obtain i where "i < length (cubes w)" "i \<notin> X"
      "cube_p (cubes w ! r) = cube_p (cubes w ! i)"
      unfolding cellsOff_def idsOff_def by auto
    then have "r = i" using wf_inj[OF wf r] by blast
    with True \<open>i \<notin> X\<close> show False by simp
  qed
  ultimately show ?thesis by (simp add: reachableFrom_def)
next
  case False
  then have rin: "r \<in> idsOff w X" using r by (simp add: idsOff_def)
  then have rc: "cube_p (cubes w ! r) \<in> cellsOff w X" unfolding cellsOff_def by blast
  have v: "visitable w X {r} = {v. (r, v) \<in> (avoidRel w X)\<^sup>*}"
    using rin by (simp add: visitable_single)
  show ?thesis
  proof (intro equalityI subsetI)
    fix q assume "q \<in> (\<lambda>i. cube_p (cubes w ! i)) ` visitable w X {r}"
    then obtain j where "(r, j) \<in> (avoidRel w X)\<^sup>*" "q = cube_p (cubes w ! j)"
      unfolding v by blast
    then show "q \<in> reachableFrom (cellsOff w X) (cube_p (cubes w ! r))"
      using ids_to_cells[OF _ rin] rc by (simp add: reachableFrom_def)
  next
    fix q assume "q \<in> reachableFrom (cellsOff w X) (cube_p (cubes w ! r))"
    then have "(cube_p (cubes w ! r), q) \<in> (adjOn (cellsOff w X))\<^sup>*"
      by (simp add: reachableFrom_def)
    from cells_to_ids[OF this refl rin] obtain j where
      "q = cube_p (cubes w ! j)" "(r, j) \<in> (avoidRel w X)\<^sup>*" by blast
    then show "q \<in> (\<lambda>i. cube_p (cubes w ! i)) ` visitable w X {r}"
      unfolding v by blast
  qed
qed

lemma card_visitable_cells:
  assumes wf: "wf_world w" and r: "r < length (cubes w)"
  shows "card (visitable w X {r})
     = card (reachableFrom (cellsOff w X) (cube_p (cubes w ! r)))"
proof -
  have "inj_on (\<lambda>i. cube_p (cubes w ! i)) (visitable w X {r})"
  proof (rule inj_onI)
    fix i j assume "i \<in> visitable w X {r}" "j \<in> visitable w X {r}"
      "cube_p (cubes w ! i) = cube_p (cubes w ! j)"
    then show "i = j"
      using visitable_props wf_inj[OF wf] by blast
  qed
  from card_image[OF this] show ?thesis
    unfolding visitable_cells[OF wf r] by simp
qed

lemma bridgeCapacity_value:
  assumes wf: "wf_world w" and b: "b \<in> set (cubes w)"
  shows "bridgeCapacity w b
     = Inr (int (length (cubes w)) - 1
            - int (card (reachableFrom (occupied w - {cube_p b}) (downmostLeftmostCell w))))"
proof -
  let ?n = "length (cubes w)"
  from b have ne: "cubes w \<noteq> []" by auto
  from wf_cube_id[OF wf b] obtain k where
    k: "getCubeId w (cube_p b) = Some k" "k < ?n" by blast
  obtain r where
    r: "getCubeId w (downmostLeftmostCell w) = Some r" "r < ?n"
    "cube_p (cubes w ! r) = downmostLeftmostCell w"
    using wf downmostLeftmost_hasCube[OF wf ne] by (rule wf_hasCube_id)
  have root: "downmostLeftmost w = Some (cubes w ! r)"
    using ne r(1,2) by (simp add: downmostLeftmost_def getCube_def)
  have rid: "getCubeId w (cube_p (cubes w ! r)) = Some r"
    using r(1,3) by simp
  have loop: "bridgeCapacityLoop w (Some k) (arrSet (replicate ?n False) k) 1 [r]
      = Inr (1 + card (visitable w (seenSet (arrSet (replicate ?n False) k)) (set [r])))"
    using wf r(2) by (intro bridgeCapacityLoop_correct) (auto simp: seenSet_arrSet)
  have res: "bridgeCapacity w b = Inr (int ?n - int (1 + card (visitable w {k} {r})))"
    using k(1) root rid loop
    by (simp del: bridgeCapacityLoop.simps
          add: bridgeCapacity_def Let_def seenSet_arrSet seenSet_replicate)
  have "card (visitable w {k} {r})
      = card (reachableFrom (cellsOff w {k}) (cube_p (cubes w ! r)))"
    using wf r(2) by (rule card_visitable_cells)
  also have "\<dots> = card (reachableFrom (occupied w - {cube_p b}) (downmostLeftmostCell w))"
    using cellsOff_single[OF wf k(1)] r(3) by simp
  finally show ?thesis using res by simp
qed


definition line3 :: "Position list" where
  "line3 = [(0, 0), (1, 0), (2, 0)]"


subsection \<open>Removing a cube keeps the invariant\<close>

lemma wf_distinct:
  assumes "wf_world w"
  shows "distinct (map cube_p (cubes w))"
  unfolding distinct_conv_nth
  using wf_inj[OF assms] by auto

lemma reindex_fold_hit:
  assumes "distinct (map cube_p cs)" "n \<le> length cs" "i < n"
  shows "fmlookup (fold (\<lambda>i m'. fmupd (cube_p (cs ! i)) i m') [0..<n] m) (cube_p (cs ! i)) = Some i"
  using assms(2,3)
proof (induction n)
  case 0
  then show ?case by simp
next
  case (Suc n)
  show ?case
  proof (cases "i = n")
    case True
    then show ?thesis by simp
  next
    case False
    with Suc.prems have i: "i < n" and n: "n < length cs" by simp_all
    then have "cube_p (cs ! n) \<noteq> cube_p (cs ! i)"
      using assms(1) by (auto simp: distinct_conv_nth)
    then show ?thesis
      using Suc.IH i n by simp
  qed
qed

lemma reindex_fold_miss:
  assumes "n \<le> length cs" "\<forall>i < n. cube_p (cs ! i) \<noteq> q"
  shows "fmlookup (fold (\<lambda>i m'. fmupd (cube_p (cs ! i)) i m') [0..<n] m) q = fmlookup m q"
  using assms
  by (induction n) simp_all

lemma wf_removeCubeUnmarked:
  assumes wf: "wf_world w" and src: "hasCube w pp"
  shows "\<exists>w1 k. removeCubeUnmarked w pp = Inr w1 \<and> getCubeId w pp = Some k
     \<and> cubes w1 = take k (cubes w) @ drop (Suc k) (cubes w)
     \<and> wf_world w1 \<and> occupied w1 = occupied w - {pp}"
proof -
  from wf src obtain k where k: "getCubeId w pp = Some k" "k < length (cubes w)"
    "cube_p (cubes w ! k) = pp" by (rule wf_hasCube_id)
  define cs where "cs = take k (cubes w) @ drop (Suc k) (cubes w)"
  define w1 where "w1 = w\<lparr>world := reindex cs (fmdrop pp (world w)), cubes := cs\<rparr>"
  have w1_cubes: "cubes w1 = cs" and w1_world: "world w1 = reindex cs (fmdrop pp (world w))"
    by (simp_all add: w1_def)
  have rm: "removeCubeUnmarked w pp = Inr w1"
    using src k(1) by (simp add: removeCubeUnmarked_def Let_def w1_def cs_def)
  have dist: "distinct (map cube_p (cubes w))" using wf by (rule wf_distinct)
  have cs_eq: "cubes w = take k (cubes w) @ cubes w ! k # drop (Suc k) (cubes w)"
    using k(2) by (rule id_take_nth_drop)
  have d3: "distinct (map cube_p (take k (cubes w) @ cubes w ! k # drop (Suc k) (cubes w)))"
    using dist cs_eq by simp
  have dist': "distinct (map cube_p cs)"
    using d3 unfolding cs_def by auto
  have notin: "pp \<notin> cube_p ` set cs"
    using d3 k(3) unfolding cs_def by auto
  have "set (cubes w) = insert (cubes w ! k) (set cs)"
  proof -
    have "set (cubes w) = set (take k (cubes w) @ cubes w ! k # drop (Suc k) (cubes w))"
      using cs_eq by simp
    then show ?thesis unfolding cs_def by simp
  qed
  then have "occupied w = insert pp (cube_p ` set cs)"
    unfolding occupied_def using k(3) by simp
  with notin have set_cs: "cube_p ` set cs = occupied w - {pp}" by auto
  have "occupied w1 = cube_p ` set cs"
    by (simp add: occupied_def w1_cubes)
  with set_cs have occ: "occupied w1 = occupied w - {pp}" by simp
  have wf1: "wf_world w1"
    unfolding wf_world_def
  proof (intro allI)
    fix q i
    show "getCubeId w1 q = Some i \<longleftrightarrow> (i < length (cubes w1) \<and> cube_p (cubes w1 ! i) = q)"
    proof (cases "q \<in> cube_p ` set cs")
      case True
      then obtain j where j: "j < length cs" "cube_p (cs ! j) = q"
        by (auto simp: in_set_conv_nth)
      have look: "getCubeId w1 q = Some j"
        using reindex_fold_hit[OF dist' order_refl j(1), of "fmdrop pp (world w)"] j(2)
        by (simp add: getCubeId_def reindex_def w1_world)
      have "i = j" if "i < length cs" "cube_p (cs ! i) = q"
        using dist' that j by (auto simp: distinct_conv_nth)
      with look j show ?thesis unfolding w1_cubes by auto
    next
      case False
      then have miss: "\<forall>i < length cs. cube_p (cs ! i) \<noteq> q"
        by (metis imageI nth_mem)
      have "getCubeId w1 q = fmlookup (fmdrop pp (world w)) q"
        using reindex_fold_miss[OF order_refl miss]
        by (simp add: getCubeId_def reindex_def w1_world)
      also have "\<dots> = None"
      proof (cases "q = pp")
        case True
        then show ?thesis by simp
      next
        case qp: False
        have "q \<notin> occupied w" using False set_cs qp by auto
        then have nh: "\<not> hasCube w q" using wf_hasCube[OF wf] by simp
        have "getCubeId w q = None"
        proof (cases "getCubeId w q")
          case (Some i')
          then have "i' < length (cubes w)" using wf_getCubeId[OF wf] by blast
          with Some nh show ?thesis by (simp add: hasCube_def getCube_def)
        qed simp
        with qp show ?thesis by (simp add: getCubeId_def)
      qed
      finally show ?thesis using miss unfolding w1_cubes by auto
    qed
  qed
  from rm k(1) wf1 occ w1_cubes show ?thesis
    unfolding cs_def by blast
qed


section \<open>The move graph and the search of the planner\<close>

text \<open>The graph that the code searches: its vertices are the cells, its edges are the moves
  that \<^verbatim>\<open>validMovesFrom\<close> returns (none at all when the cubes of the world are not
  connected). For the planner the world is the configuration without the mover. A path is a
  list of moves, each starting where the one before it ends.\<close>

definition validMoves :: "World \<Rightarrow> Position \<Rightarrow> Move list" where
  "validMoves w a = (case validMovesFrom w a of Inl e \<Rightarrow> [] | Inr ms \<Rightarrow> ms)"

fun isMovePath :: "World \<Rightarrow> Position \<Rightarrow> Move list \<Rightarrow> Position \<Rightarrow> bool" where
  "isMovePath w a [] b = (a = b)"
| "isMovePath w a (m # ms) b =
     (m \<in> set (validMoves w a) \<and> isMovePath w (targetPosition m) ms b)"

definition reachable :: "World \<Rightarrow> Position \<Rightarrow> Position \<Rightarrow> bool" where
  "reachable w a b = (\<exists>ms. isMovePath w a ms b)"

definition moveDist :: "World \<Rightarrow> Position \<Rightarrow> Position \<Rightarrow> nat" where
  "moveDist w a b = (LEAST n. \<exists>ms. isMovePath w a ms b \<and> length ms = n)"

lemma validMovesFrom_wf:
  assumes "wf_world w"
  shows "validMovesFrom w a = Inr (validMoves w a)"
proof -
  obtain c where "isConnected w (Some a) = Inr c"
    using isConnected_correct[OF assms, of "Some a"] by blast
  then show ?thesis by (simp add: validMoves_def validMovesFrom_def)
qed

lemma validMoves_position:
  assumes "m \<in> set (validMoves w a)"
  shows "position m = a \<and> isValidIgnoreConnectivity w m"
  using assms
  by (auto simp: validMoves_def validMovesFrom_def split: sum.splits if_splits)

lemma isMovePath_snoc:
  "isMovePath w a ms b \<Longrightarrow> m \<in> set (validMoves w b) \<Longrightarrow>
   isMovePath w a (ms @ [m]) (targetPosition m)"
  by (induction ms arbitrary: a) auto

lemma isMovePath_snocD:
  "isMovePath w a (ms @ [m]) c \<Longrightarrow>
   \<exists>b. isMovePath w a ms b \<and> m \<in> set (validMoves w b) \<and> targetPosition m = c"
  by (induction ms arbitrary: a) auto

lemma moveDist_le: "isMovePath w a ms b \<Longrightarrow> moveDist w a b \<le> length ms"
  unfolding moveDist_def by (rule Least_le) blast

lemma moveDist_path:
  assumes "reachable w a b"
  shows "\<exists>ms. isMovePath w a ms b \<and> length ms = moveDist w a b"
proof -
  from assms obtain ms where "isMovePath w a ms b" unfolding reachable_def by blast
  then have "\<exists>ms'. isMovePath w a ms' b \<and> length ms' = length ms" by blast
  then show ?thesis
    unfolding moveDist_def by (rule LeastI[of "\<lambda>n. \<exists>ms. isMovePath w a ms b \<and> length ms = n"])
qed

lemma reachable_refl: "reachable w a a"
  unfolding reachable_def by (intro exI[of _ "[]"]) simp

lemma moveDist_self: "moveDist w a a = 0"
  using moveDist_le[of w a "[]" a] by simp

lemma reachable_step:
  assumes "reachable w a b" "m \<in> set (validMoves w b)"
  shows "reachable w a (targetPosition m)"
  using assms isMovePath_snoc unfolding reachable_def by blast

lemma moveDist_step:
  assumes "reachable w a b" "m \<in> set (validMoves w b)"
  shows "moveDist w a (targetPosition m) \<le> moveDist w a b + 1"
proof -
  from moveDist_path[OF assms(1)] obtain ms where
    ms: "isMovePath w a ms b" "length ms = moveDist w a b" by blast
  from moveDist_le[OF isMovePath_snoc[OF ms(1) assms(2)]] ms(2) show ?thesis by simp
qed

lemma moveDist_pred:
  assumes r: "reachable w a c" and ne: "c \<noteq> a"
  shows "\<exists>p m. reachable w a p \<and> m \<in> set (validMoves w p) \<and> targetPosition m = c
           \<and> moveDist w a c = moveDist w a p + 1"
proof -
  from moveDist_path[OF r] obtain ms where
    ms: "isMovePath w a ms c" "length ms = moveDist w a c" by blast
  from ms(1) ne have "ms \<noteq> []" by auto
  then obtain ms' m where snoc: "ms = ms' @ [m]" by (metis rev_exhaust)
  from isMovePath_snocD[OF ms(1)[unfolded snoc]] obtain p where
    p: "isMovePath w a ms' p" "m \<in> set (validMoves w p)" "targetPosition m = c" by blast
  have rp: "reachable w a p" using p(1) unfolding reachable_def by blast
  have "moveDist w a p \<le> length ms'" using p(1) by (rule moveDist_le)
  moreover have "moveDist w a c \<le> moveDist w a p + 1"
    using moveDist_step[OF rp p(2)] p(3) by simp
  ultimately have "moveDist w a c = moveDist w a p + 1"
    using ms(2) snoc by simp
  with rp p(2,3) show ?thesis by blast
qed


subsection \<open>The invariant of the search\<close>

definition seenKeys :: "SeenMap \<Rightarrow> Position set" where
  "seenKeys seen = fst ` set seen"

definition qlev :: "World \<Rightarrow> Position \<Rightarrow> Position \<times> Move option \<Rightarrow> nat" where
  "qlev w src e = (case snd e of None \<Rightarrow> 0 | Some m \<Rightarrow> moveDist w src (position m) + 1)"

definition entryOK :: "World \<Rightarrow> Position \<Rightarrow> Position set \<Rightarrow> Position \<times> Move option \<Rightarrow> bool" where
  "entryOK w src K e =
     (e = (src, None) \<or>
      (\<exists>m. e = (targetPosition m, Some m) \<and> position m \<in> K
           \<and> m \<in> set (validMoves w (position m))))"

definition seenOK :: "World \<Rightarrow> Position \<Rightarrow> SeenMap \<Rightarrow> bool" where
  "seenOK w src seen =
     (distinct (map fst seen)
      \<and> (\<forall>i < length seen. entryOK w src (seenKeys (take i seen)) (seen ! i)
             \<and> moveDist w src (fst (seen ! i)) = qlev w src (seen ! i))
      \<and> (\<forall>c \<in> seenKeys seen. reachable w src c)
      \<and> (seen \<noteq> [] \<longrightarrow> fst (hd seen) = src))"

definition planInv ::
  "World \<Rightarrow> Position \<Rightarrow> Position \<Rightarrow> SeenMap \<Rightarrow> (Position \<times> Move option) list \<Rightarrow> bool" where
  "planInv w src dst seen queue =
     (seenOK w src seen
      \<and> dst \<notin> seenKeys seen
      \<and> (seen = [] \<longrightarrow> queue = [(src, None)])
      \<and> (\<forall>e \<in> set queue. entryOK w src (seenKeys seen) e)
      \<and> sorted (map (qlev w src) queue)
      \<and> (queue \<noteq> [] \<longrightarrow> qlev w src (last queue) \<le> qlev w src (hd queue) + 1)
      \<and> (\<forall>p \<in> seenKeys seen. \<forall>m \<in> set (validMoves w p).
            targetPosition m \<in> seenKeys seen \<or> (targetPosition m, Some m) \<in> set queue)
      \<and> (\<forall>c. reachable w src c \<longrightarrow> queue \<noteq> [] \<longrightarrow> moveDist w src c < qlev w src (hd queue)
            \<longrightarrow> c \<in> seenKeys seen))"

lemma entryOK_mono: "entryOK w src K e \<Longrightarrow> K \<subseteq> K' \<Longrightarrow> entryOK w src K' e"
  unfolding entryOK_def by blast

lemma seenKeys_append: "seenKeys (seen @ [e]) = insert (fst e) (seenKeys seen)"
  by (auto simp: seenKeys_def)

lemma sorted_le_last:
  "sorted (map f xs) \<Longrightarrow> x \<in> set xs \<Longrightarrow> (f x :: nat) \<le> f (last xs)"
  by (induction xs) auto

lemma level_bounds:
  assumes "sorted (map f (e # q))" "f (last (e # q)) \<le> f e + 1" "x \<in> set (e # q)"
  shows "f e \<le> f x \<and> f x \<le> f e + (1::nat)"
proof -
  have 1: "f e \<le> f x" using assms(1,3) by auto
  have "f x \<le> f (last (e # q))" by (rule sorted_le_last[OF assms(1,3)])
  with assms(2) 1 show ?thesis by simp
qed

lemma seenOK_src:
  assumes "seenOK w src seen" "seen \<noteq> []"
  shows "src \<in> seenKeys seen"
proof -
  from assms have "fst (hd seen) = src" by (simp add: seenOK_def)
  moreover have "hd seen \<in> set seen" using assms(2) by simp
  ultimately show ?thesis unfolding seenKeys_def by force
qed

lemma planInvD:
  assumes "planInv w src dst seen queue"
  shows "seenOK w src seen" "dst \<notin> seenKeys seen" "seen = [] \<Longrightarrow> queue = [(src, None)]"
    "\<And>e. e \<in> set queue \<Longrightarrow> entryOK w src (seenKeys seen) e"
    "sorted (map (qlev w src) queue)"
    "queue \<noteq> [] \<Longrightarrow> qlev w src (last queue) \<le> qlev w src (hd queue) + 1"
    "\<And>p m. p \<in> seenKeys seen \<Longrightarrow> m \<in> set (validMoves w p) \<Longrightarrow>
        targetPosition m \<in> seenKeys seen \<or> (targetPosition m, Some m) \<in> set queue"
    "\<And>c. reachable w src c \<Longrightarrow> queue \<noteq> [] \<Longrightarrow> moveDist w src c < qlev w src (hd queue) \<Longrightarrow>
        c \<in> seenKeys seen"
  using assms unfolding planInv_def by blast+

lemma seenOK_reachable: "seenOK w src seen \<Longrightarrow> c \<in> seenKeys seen \<Longrightarrow> reachable w src c"
  unfolding seenOK_def by blast

lemma qlev_Some: "qlev w src (c, Some m) = moveDist w src (position m) + 1"
  by (simp add: qlev_def)

lemma qlev_None: "qlev w src (c, None) = 0"
  by (simp add: qlev_def)

lemma frontier:
  assumes inv: "planInv w src dst seen (e # queue)"
    and r: "reachable w src c"
    and d: "moveDist w src c \<le> qlev w src e"
  shows "c = src \<or> c \<in> seenKeys seen \<or> c = fst e
           \<or> (\<exists>x \<in> set queue. qlev w src x = qlev w src e)"
proof (cases "moveDist w src c < qlev w src e")
  case True
  then have "c \<in> seenKeys seen" using planInvD(8)[OF inv r] by simp
  then show ?thesis by blast
next
  case False
  with d have eq: "moveDist w src c = qlev w src e" by simp
  show ?thesis
  proof (cases "c = src")
    case True
    then show ?thesis by blast
  next
    case False
    from moveDist_pred[OF r False] obtain p m where
      pm: "reachable w src p" "m \<in> set (validMoves w p)" "targetPosition m = c"
          "moveDist w src c = moveDist w src p + 1" by blast
    have "moveDist w src p < qlev w src e" using pm(4) eq by simp
    then have pk: "p \<in> seenKeys seen" using planInvD(8)[OF inv pm(1)] by simp
    have pos: "position m = p" using validMoves_position[OF pm(2)] by simp
    from planInvD(7)[OF inv pk pm(2)]
    have "c \<in> seenKeys seen \<or> (c, Some m) \<in> set (e # queue)" using pm(3) by simp
    then consider "c \<in> seenKeys seen" | "e = (c, Some m)" | "(c, Some m) \<in> set queue" by auto
    then show ?thesis
    proof cases
      case 1
      then show ?thesis by blast
    next
      case 2
      then show ?thesis by simp
    next
      case 3
      have "qlev w src (c, Some m) = qlev w src e"
        using pos pm(4) eq by (simp add: qlev_Some)
      with 3 show ?thesis by blast
    qed
  qed
qed

lemma frontier_step:
  assumes inv: "planInv w src dst seen (e # queue)"
    and sorted': "sorted (map (qlev w src) Q')"
    and sub: "set queue \<subseteq> set Q'"
    and ne: "Q' \<noteq> []"
    and lev: "qlev w src (hd Q') \<le> qlev w src e + 1"
    and keys: "seenKeys seen \<subseteq> K'" "fst e \<in> K'" "src \<in> K'"
    and r: "reachable w src c"
    and d: "moveDist w src c < qlev w src (hd Q')"
  shows "c \<in> K'"
proof (cases "moveDist w src c < qlev w src e")
  case True
  then have "c \<in> seenKeys seen" using planInvD(8)[OF inv r] by simp
  then show ?thesis using keys by blast
next
  case False
  with d lev have eq: "moveDist w src c = qlev w src e"
    and big: "qlev w src e < qlev w src (hd Q')" by simp_all
  have nox: "\<not> (\<exists>x \<in> set queue. qlev w src x = qlev w src e)"
  proof
    assume "\<exists>x \<in> set queue. qlev w src x = qlev w src e"
    then obtain x where x: "x \<in> set queue" "qlev w src x = qlev w src e" by blast
    obtain h t where Q': "Q' = h # t" using ne by (cases Q') auto
    have "x \<in> set (h # t)" using x(1) sub Q' by blast
    then have "qlev w src h \<le> qlev w src x" using sorted' Q' by auto
    with big x(2) Q' show False by simp
  qed
  from frontier[OF inv r] eq nox have "c = src \<or> c \<in> seenKeys seen \<or> c = fst e" by simp
  then show ?thesis using keys by blast
qed

lemma planInv_skip:
  assumes inv: "planInv w src dst seen (e # queue)" and old: "fst e \<in> seenKeys seen"
  shows "planInv w src dst seen queue"
proof -
  note D = planInvD[OF inv]
  have ne: "seen \<noteq> []" using old by (auto simp: seenKeys_def)
  have srck: "src \<in> seenKeys seen" by (rule seenOK_src[OF D(1) ne])
  have b: "\<And>x. x \<in> set (e # queue) \<Longrightarrow>
      qlev w src e \<le> qlev w src x \<and> qlev w src x \<le> qlev w src e + 1"
    using level_bounds[OF D(5)] D(6) by simp
  have 4: "\<forall>x \<in> set queue. entryOK w src (seenKeys seen) x" using D(4) by simp
  have 5: "sorted (map (qlev w src) queue)" using D(5) by simp
  have 6: "queue \<noteq> [] \<longrightarrow> qlev w src (last queue) \<le> qlev w src (hd queue) + 1"
  proof
    assume q: "queue \<noteq> []"
    have "qlev w src (last queue) \<le> qlev w src e + 1" using b[of "last queue"] q by simp
    moreover have "qlev w src e \<le> qlev w src (hd queue)" using b[of "hd queue"] q by simp
    ultimately show "qlev w src (last queue) \<le> qlev w src (hd queue) + 1" by simp
  qed
  have 7: "\<forall>p \<in> seenKeys seen. \<forall>m \<in> set (validMoves w p).
            targetPosition m \<in> seenKeys seen \<or> (targetPosition m, Some m) \<in> set queue"
  proof (intro ballI)
    fix p m assume pm: "p \<in> seenKeys seen" "m \<in> set (validMoves w p)"
    from D(7)[OF pm] show "targetPosition m \<in> seenKeys seen \<or> (targetPosition m, Some m) \<in> set queue"
      using old by auto
  qed
  have 8: "\<forall>c. reachable w src c \<longrightarrow> queue \<noteq> [] \<longrightarrow> moveDist w src c < qlev w src (hd queue)
            \<longrightarrow> c \<in> seenKeys seen"
  proof (intro allI impI)
    fix c assume r: "reachable w src c" and q: "queue \<noteq> []"
      and d: "moveDist w src c < qlev w src (hd queue)"
    have lev: "qlev w src (hd queue) \<le> qlev w src e + 1" using b[of "hd queue"] q by simp
    show "c \<in> seenKeys seen"
      by (rule frontier_step[OF inv 5 subset_refl q lev subset_refl old srck r d])
  qed
  show ?thesis
    unfolding planInv_def using D(1) D(2) ne 4 5 6 7 8 by blast
qed

lemma seenOK_snoc:
  assumes inv: "planInv w src dst seen (e # queue)" and new: "fst e \<notin> seenKeys seen"
  shows "seenOK w src (seen @ [e]) \<and> moveDist w src (fst e) = qlev w src e"
proof -
  note D = planInvD[OF inv]
  have ok: "entryOK w src (seenKeys seen) e" using D(4) by simp
  have lev: "moveDist w src (fst e) = qlev w src e \<and> reachable w src (fst e)"
  proof (cases "e = (src, None)")
    case True
    then show ?thesis by (simp add: qlev_None moveDist_self reachable_refl)
  next
    case False
    with ok obtain m where m: "e = (targetPosition m, Some m)" "position m \<in> seenKeys seen"
      "m \<in> set (validMoves w (position m))" unfolding entryOK_def by blast
    have rp: "reachable w src (position m)" by (rule seenOK_reachable[OF D(1) m(2)])
    have r: "reachable w src (fst e)" using reachable_step[OF rp m(3)] m(1) by simp
    have le: "moveDist w src (fst e) \<le> qlev w src e"
      using moveDist_step[OF rp m(3)] m(1) by (simp add: qlev_Some)
    have "\<not> moveDist w src (fst e) < qlev w src e"
    proof
      assume "moveDist w src (fst e) < qlev w src e"
      then have "fst e \<in> seenKeys seen" using D(8)[OF r] by simp
      with new show False by simp
    qed
    with le r show ?thesis by simp
  qed
  have 1: "distinct (map fst (seen @ [e]))"
    using D(1) new by (simp add: seenOK_def seenKeys_def)
  have 2: "entryOK w src (seenKeys (take i (seen @ [e]))) ((seen @ [e]) ! i)
             \<and> moveDist w src (fst ((seen @ [e]) ! i)) = qlev w src ((seen @ [e]) ! i)"
    if i: "i < length (seen @ [e])" for i
  proof (cases "i < length seen")
    case True
    then show ?thesis using D(1) by (simp add: seenOK_def nth_append)
  next
    case False
    with i have "i = length seen" by simp
    then show ?thesis using ok lev by (simp add: nth_append)
  qed
  have 3: "\<forall>c \<in> seenKeys (seen @ [e]). reachable w src c"
    using D(1) lev by (auto simp: seenKeys_append seenOK_def)
  have 4: "fst (hd (seen @ [e])) = src"
  proof (cases "seen = []")
    case True
    with D(3) show ?thesis by simp
  next
    case False
    then show ?thesis using D(1) by (simp add: seenOK_def)
  qed
  show ?thesis
    unfolding seenOK_def using 1 2 3 4 lev by blast
qed

lemma sorted_const_append:
  assumes "sorted (map f xs)" "\<forall>x \<in> set xs. f x \<le> (k::nat)" "\<forall>y \<in> set ys. f y = k"
  shows "sorted (map f (xs @ ys))"
proof -
  have "sorted (map f ys)" using assms(3)
  proof (induction ys)
    case Nil
    then show ?case by simp
  next
    case (Cons y ys)
    then show ?case by simp
  qed
  then show ?thesis using assms by (simp add: sorted_append)
qed

lemma planInv_add_gen:
  assumes inv: "planInv w src dst seen (e # queue)" and new: "fst e \<notin> seenKeys seen"
    and nd: "fst e \<noteq> dst"
    and newD: "\<And>x. x \<in> set new \<Longrightarrow>
        \<exists>m. m \<in> set (validMoves w (fst e)) \<and> x = (targetPosition m, Some m)"
    and newI: "\<And>m. m \<in> set (validMoves w (fst e)) \<Longrightarrow> (targetPosition m, Some m) \<in> set new"
  shows "planInv w src dst (seen @ [e]) (queue @ new)"
proof -
  note D = planInvD[OF inv]
  from seenOK_snoc[OF inv new] have sok: "seenOK w src (seen @ [e])"
    and lev: "moveDist w src (fst e) = qlev w src e" by simp_all
  have srck: "src \<in> seenKeys (seen @ [e])" by (rule seenOK_src[OF sok]) simp
  have b: "\<And>x. x \<in> set (e # queue) \<Longrightarrow>
      qlev w src e \<le> qlev w src x \<and> qlev w src x \<le> qlev w src e + 1"
    using level_bounds[OF D(5)] D(6) by simp
  have bq: "\<And>x. x \<in> set queue \<Longrightarrow>
      qlev w src e \<le> qlev w src x \<and> qlev w src x \<le> qlev w src e + 1"
    using b by simp
  have newlev: "qlev w src x = qlev w src e + 1" if "x \<in> set new" for x
  proof -
    from newD[OF that] obtain m where
      m: "m \<in> set (validMoves w (fst e))" "x = (targetPosition m, Some m)" by blast
    have "position m = fst e" using validMoves_position[OF m(1)] by simp
    then show ?thesis using m(2) lev by (simp add: qlev_Some)
  qed
  have allQ: "qlev w src e \<le> qlev w src x \<and> qlev w src x \<le> qlev w src e + 1"
    if "x \<in> set (queue @ new)" for x
  proof -
    from that have "x \<in> set queue \<or> x \<in> set new" by simp
    then show ?thesis
    proof
      assume "x \<in> set queue" then show ?thesis by (rule bq)
    next
      assume "x \<in> set new" then show ?thesis using newlev by simp
    qed
  qed
  have 2: "dst \<notin> seenKeys (seen @ [e])" using D(2) nd by (simp add: seenKeys_append)
  have 4: "\<forall>x \<in> set (queue @ new). entryOK w src (seenKeys (seen @ [e])) x"
  proof
    fix x assume "x \<in> set (queue @ new)"
    then have "x \<in> set queue \<or> x \<in> set new" by simp
    then show "entryOK w src (seenKeys (seen @ [e])) x"
    proof
      assume "x \<in> set queue"
      then have "entryOK w src (seenKeys seen) x" using D(4) by simp
      then show ?thesis by (rule entryOK_mono) (auto simp: seenKeys_append)
    next
      assume "x \<in> set new"
      from newD[OF this] obtain m where
        m: "m \<in> set (validMoves w (fst e))" "x = (targetPosition m, Some m)" by blast
      have "position m = fst e" using validMoves_position[OF m(1)] by simp
      then show ?thesis using m unfolding entryOK_def by (simp add: seenKeys_append)
    qed
  qed
  have 5: "sorted (map (qlev w src) (queue @ new))"
  proof (rule sorted_const_append)
    show "sorted (map (qlev w src) queue)" using D(5) by simp
    show "\<forall>x \<in> set queue. qlev w src x \<le> qlev w src e + 1" using bq by blast
    show "\<forall>y \<in> set new. qlev w src y = qlev w src e + 1" using newlev by blast
  qed
  have hdlev: "qlev w src (hd (queue @ new)) \<le> qlev w src e + 1" if ne: "queue @ new \<noteq> []"
  proof -
    have "hd (queue @ new) \<in> set (queue @ new)" using ne by (rule hd_in_set)
    from allQ[OF this] show ?thesis by simp
  qed
  have 6: "queue @ new \<noteq> [] \<longrightarrow>
      qlev w src (last (queue @ new)) \<le> qlev w src (hd (queue @ new)) + 1"
  proof
    assume ne: "queue @ new \<noteq> []"
    have "last (queue @ new) \<in> set (queue @ new)" using ne by (rule last_in_set)
    from allQ[OF this] have up: "qlev w src (last (queue @ new)) \<le> qlev w src e + 1" by simp
    have "hd (queue @ new) \<in> set (queue @ new)" using ne by (rule hd_in_set)
    from allQ[OF this] have "qlev w src e \<le> qlev w src (hd (queue @ new))" by simp
    with up show "qlev w src (last (queue @ new)) \<le> qlev w src (hd (queue @ new)) + 1"
      by simp
  qed
  have 7: "\<forall>p \<in> seenKeys (seen @ [e]). \<forall>m \<in> set (validMoves w p).
            targetPosition m \<in> seenKeys (seen @ [e])
            \<or> (targetPosition m, Some m) \<in> set (queue @ new)"
  proof (intro ballI)
    fix p m assume p: "p \<in> seenKeys (seen @ [e])" and m: "m \<in> set (validMoves w p)"
    show "targetPosition m \<in> seenKeys (seen @ [e])
            \<or> (targetPosition m, Some m) \<in> set (queue @ new)"
    proof (cases "p = fst e")
      case True
      then have "(targetPosition m, Some m) \<in> set new" using m newI by simp
      then show ?thesis by simp
    next
      case False
      with p have "p \<in> seenKeys seen" by (simp add: seenKeys_append)
      from D(7)[OF this m]
      have "targetPosition m \<in> seenKeys seen \<or> (targetPosition m, Some m) \<in> set (e # queue)" .
      then consider "targetPosition m \<in> seenKeys seen" | "(targetPosition m, Some m) = e"
        | "(targetPosition m, Some m) \<in> set queue" by auto
      then show ?thesis
      proof cases
        case 1 then show ?thesis by (simp add: seenKeys_append)
      next
        case 2
        then have "fst e = targetPosition m" by (metis fst_conv)
        then show ?thesis by (simp add: seenKeys_append)
      next
        case 3 then show ?thesis by simp
      qed
    qed
  qed
  have 8: "\<forall>c. reachable w src c \<longrightarrow> queue @ new \<noteq> []
            \<longrightarrow> moveDist w src c < qlev w src (hd (queue @ new))
            \<longrightarrow> c \<in> seenKeys (seen @ [e])"
  proof (intro allI impI)
    fix c assume r: "reachable w src c" and q: "queue @ new \<noteq> []"
      and d: "moveDist w src c < qlev w src (hd (queue @ new))"
    have sub: "set queue \<subseteq> set (queue @ new)" by simp
    have k1: "seenKeys seen \<subseteq> seenKeys (seen @ [e])" by (auto simp: seenKeys_append)
    have k2: "fst e \<in> seenKeys (seen @ [e])" by (simp add: seenKeys_append)
    show "c \<in> seenKeys (seen @ [e])"
      by (rule frontier_step[OF inv 5 sub q hdlev[OF q] k1 k2 srck r d])
  qed
  have 3: "seen @ [e] \<noteq> []" by simp
  show ?thesis
    unfolding planInv_def using sok 2 3 4 5 6 7 8 by blast
qed

lemma planInv_add:
  assumes inv: "planInv w src dst seen (e # queue)" and new: "fst e \<notin> seenKeys seen"
    and nd: "fst e \<noteq> dst"
  shows "planInv w src dst (seen @ [e])
           (queue @ map (\<lambda>m. (targetPosition m, Some m)) (validMoves w (fst e)))"
  by (rule planInv_add_gen[OF inv new nd]) auto

lemma closed_reachable:
  assumes cl: "\<forall>p \<in> K. \<forall>m \<in> set (validMoves w p). targetPosition m \<in> K"
  shows "isMovePath w a ms b \<Longrightarrow> a \<in> K \<Longrightarrow> b \<in> K"
proof (induction ms arbitrary: a)
  case Nil
  then show ?case by simp
next
  case (Cons m ms)
  from Cons.prems have m: "m \<in> set (validMoves w a)"
    and p: "isMovePath w (targetPosition m) ms b" by simp_all
  have "targetPosition m \<in> K" using cl Cons.prems(2) m by blast
  from Cons.IH[OF p this] show ?case .
qed

lemma map_of_seenKeys: "(map_of seen c \<noteq> None) = (c \<in> seenKeys seen)"
  by (simp add: map_of_eq_None_iff seenKeys_def)

lemma shortestMovePathLoop_correct:
  "wf_world w \<Longrightarrow> planInv w src dst seen queue \<Longrightarrow>
   \<exists>seen'. shortestMovePathLoop w dst seen queue = Inr seen' \<and> seenOK w src seen'
           \<and> (reachable w src dst \<longrightarrow> dst \<in> seenKeys seen')"
proof (induction w dst seen queue rule: shortestMovePathLoop.induct)
  case (1 w to seen)
  note D = planInvD[OF 1(2)]
  have ne: "seen \<noteq> []" using D(3) by auto
  have srck: "src \<in> seenKeys seen" by (rule seenOK_src[OF D(1) ne])
  have cl: "\<forall>p \<in> seenKeys seen. \<forall>m \<in> set (validMoves w p). targetPosition m \<in> seenKeys seen"
    using D(7) by auto
  have "reachable w src to \<longrightarrow> to \<in> seenKeys seen"
    using closed_reachable[OF cl _ srck] unfolding reachable_def by blast
  then show ?case using D(1) by simp
next
  case (2 w to seen location queue)
  note wf = 2(3) and inv = 2(4)
  show ?case
  proof (cases "fst location \<in> seenKeys seen")
    case True
    have m: "map_of seen (fst location) \<noteq> None" using True map_of_seenKeys[of seen "fst location"] by blast
    from 2(1)[OF m wf planInv_skip[OF inv True]] m show ?thesis by simp
  next
    case False
    have m: "\<not> map_of seen (fst location) \<noteq> None" using False map_of_seenKeys[of seen "fst location"] by blast
    from seenOK_snoc[OF inv False] have sok: "seenOK w src (seen @ [location])" by simp
    show ?thesis
    proof (cases "fst location = to")
      case True
      then show ?thesis using m sok by (simp add: seenKeys_append)
    next
      case ne: False
      have v: "validMovesFrom w (fst location) = Inr (validMoves w (fst location))"
        by (rule validMovesFrom_wf[OF wf])
      from 2(2)[OF m refl ne v wf planInv_add[OF inv False ne]] m ne v
      show ?thesis by simp
    qed
  qed
qed

lemma planInv_init: "planInv w src dst [] [(src, None)]"
  unfolding planInv_def seenOK_def entryOK_def seenKeys_def
  by (simp add: qlev_None)

subsection \<open>Rebuilding the path\<close>

lemma seenOK_map_of:
  assumes "seenOK w src seen" "i < length seen"
  shows "map_of seen (fst (seen ! i)) = Some (snd (seen ! i))"
proof -
  have d: "distinct (map fst seen)" using assms(1) by (simp add: seenOK_def)
  have "(fst (seen ! i), snd (seen ! i)) \<in> set seen" using assms(2) by simp
  then show ?thesis by (rule map_of_is_SomeI[OF d])
qed

lemma seenKeys_take:
  assumes "c \<in> seenKeys (take i seen)"
  shows "\<exists>j. j < i \<and> j < length seen \<and> fst (seen ! j) = c"
proof -
  from assms obtain x where x: "x \<in> set (take i seen)" "fst x = c"
    unfolding seenKeys_def by blast
  from x(1) obtain j where j: "j < length (take i seen)" "take i seen ! j = x"
    by (metis in_set_conv_nth)
  from j have "j < i" "j < length seen" "seen ! j = x" by simp_all
  with x(2) show ?thesis by blast
qed

lemma reconstructPath_src: "reconstructPath fuel seen src src path = Some (Inr path)"
  by (cases fuel) simp_all

lemma reconstructPath_correct:
  assumes ok: "seenOK w src seen"
  shows "i < length seen \<Longrightarrow> i \<le> fuel \<Longrightarrow>
     \<exists>P. reconstructPath fuel seen src (fst (seen ! i)) path = Some (Inr (P @ path))
        \<and> isMovePath w src P (fst (seen ! i))
        \<and> length P = moveDist w src (fst (seen ! i))"
proof (induction i arbitrary: fuel path rule: less_induct)
  case (less i)
  show ?case
  proof (cases "fst (seen ! i) = src")
    case True
    have "reconstructPath fuel seen src (fst (seen ! i)) path = Some (Inr ([] @ path))"
      unfolding True by (simp add: reconstructPath_src)
    moreover have "isMovePath w src [] (fst (seen ! i))" using True by simp
    moreover have "length ([]::Move list) = moveDist w src (fst (seen ! i))"
      unfolding True by (simp add: moveDist_self)
    ultimately show ?thesis by blast
  next
    case False
    from ok less.prems(1) have e: "entryOK w src (seenKeys (take i seen)) (seen ! i)"
      and d: "moveDist w src (fst (seen ! i)) = qlev w src (seen ! i)"
      by (simp_all add: seenOK_def)
    have "seen ! i \<noteq> (src, None)" using False by (metis fst_conv)
    with e obtain m where m: "seen ! i = (targetPosition m, Some m)"
      "position m \<in> seenKeys (take i seen)" "m \<in> set (validMoves w (position m))"
      unfolding entryOK_def by blast
    from seenKeys_take[OF m(2)] obtain j where
      j: "j < i" "j < length seen" "fst (seen ! j) = position m" by blast
    obtain f where fuel: "fuel = Suc f" and jf: "j \<le> f"
      using less.prems(2) j(1) by (cases fuel) auto
    have mp: "map_of seen (fst (seen ! i)) = Some (Some m)"
      using seenOK_map_of[OF ok less.prems(1)] m(1) by simp
    from less.IH[OF j(1) j(2) jf, of "m # path"] obtain P' where
      P': "reconstructPath f seen src (position m) (m # path) = Some (Inr (P' @ m # path))"
      "isMovePath w src P' (position m)" "length P' = moveDist w src (position m)"
      unfolding j(3) by blast
    have step: "reconstructPath fuel seen src (fst (seen ! i)) path
                  = reconstructPath f seen src (position m) (m # path)"
      unfolding fuel using False mp by (simp add: sourcePosition_def)
    have 1: "reconstructPath fuel seen src (fst (seen ! i)) path
               = Some (Inr ((P' @ [m]) @ path))"
      unfolding step P'(1) by simp
    have ti: "fst (seen ! i) = targetPosition m" using m(1) by simp
    have 2: "isMovePath w src (P' @ [m]) (fst (seen ! i))"
      unfolding ti by (rule isMovePath_snoc[OF P'(2) m(3)])
    have "qlev w src (seen ! i) = moveDist w src (position m) + 1"
      unfolding m(1) by (rule qlev_Some)
    then have 3: "length (P' @ [m]) = moveDist w src (fst (seen ! i))"
      using d P'(3) by simp
    from 1 2 3 show ?thesis by blast
  qed
qed

lemma reconstructPath_found:
  assumes ok: "seenOK w src seen" and k: "c \<in> seenKeys seen"
  shows "\<exists>P. reconstructPath (length seen) seen src c [] = Some (Inr P)
        \<and> isMovePath w src P c \<and> length P = moveDist w src c"
proof -
  from k obtain x where "x \<in> set seen" "fst x = c" unfolding seenKeys_def by blast
  then obtain i where i: "i < length seen" "fst (seen ! i) = c"
    by (metis in_set_conv_nth)
  have "i \<le> length seen" using i(1) by simp
  from reconstructPath_correct[OF ok i(1) this, of "[]"] show ?thesis
    unfolding i(2) by simp
qed

subsection \<open>Putting the mover back\<close>

definition withoutMover :: "World \<Rightarrow> Position \<Rightarrow> World" where
  "withoutMover w from = (case removeCubeUnmarked w from of Inl e \<Rightarrow> w | Inr w1 \<Rightarrow> w1)"

lemma restore_cube:
  assumes wf1: "wf_world w1" and free: "pp \<notin> occupied w1"
  shows "\<exists>w2. addCubeUnmarked w1 pp c = Inr w2
     \<and> wf_world (setLastStatus w2 st)
     \<and> occupied (setLastStatus w2 st) = insert pp (occupied w1)
     \<and> getCube (setLastStatus w2 st) pp = Some ((newCube pp c)\<lparr>componentStatus := st\<rparr>)"
proof -
  have nh: "\<not> hasCube w1 pp" using free wf_hasCube[OF wf1] by simp
  define w2 where "w2 = w1\<lparr>world := fmupd pp (length (cubes w1)) (world w1),
                          cubes := cubes w1 @ [newCube pp c]\<rparr>"
  have add: "addCubeUnmarked w1 pp c = Inr w2"
    using nh by (simp add: addCubeUnmarked_def w2_def)
  have wf2: "wf_world w2" by (rule wf_addCubeUnmarked[OF wf1 add])
  have cs: "cubes (setLastStatus w2 st) = cubes w1 @ [(newCube pp c)\<lparr>componentStatus := st\<rparr>]"
    by (simp add: setLastStatus_def w2_def)
  have wo: "world (setLastStatus w2 st) = world w2"
    by (simp add: setLastStatus_def)
  have mp: "map cube_p (cubes (setLastStatus w2 st)) = map cube_p (cubes w2)"
    unfolding cs by (simp add: w2_def newCube_def)
  have wf3: "wf_world (setLastStatus w2 st)" by (rule wf_world_cong[OF wf2 wo mp])
  have occ: "occupied (setLastStatus w2 st) = insert pp (occupied w1)"
    unfolding occupied_def mp using occupied_addCubeUnmarked[OF add]
    by (simp add: occupied_def)
  have id: "getCubeId (setLastStatus w2 st) pp = Some (length (cubes w1))"
    unfolding getCubeId_def wo by (simp add: w2_def)
  have "getCube (setLastStatus w2 st) pp = Some ((newCube pp c)\<lparr>componentStatus := st\<rparr>)"
    unfolding getCube_def id cs by simp
  with add wf3 occ show ?thesis by blast
qed

lemma getCube_wf:
  assumes wf: "wf_world w" and src: "getCube w from = Some cube"
  shows "hasCube w from \<and> cube_p cube = from"
proof -
  from src obtain i where i: "getCubeId w from = Some i" "i < length (cubes w)"
    "cube = cubes w ! i"
    by (auto simp: getCube_def split: option.splits if_splits)
  have "cube_p (cubes w ! i) = from" using wf_getCubeId[OF wf, of "from" i] i(1) by simp
  then show ?thesis using src i(3) by (simp add: hasCube_def)
qed

lemma shortestMovePath_unfold:
  assumes wf: "wf_world w" and src: "getCube w from = Some cube"
  shows "\<exists>w' seen.
      wf_world (withoutMover w from)
    \<and> occupied (withoutMover w from) = occupied w - {from}
    \<and> wf_world w' \<and> occupied w' = occupied w
    \<and> getCube w' from = Some ((newCube from (color cube))\<lparr>componentStatus := componentStatus cube\<rparr>)
    \<and> seenOK (withoutMover w from) from seen
    \<and> (to \<in> seenKeys seen) = reachable (withoutMover w from) from to
    \<and> shortestMovePath w from to =
        (if to \<notin> seenKeys seen then Some (w', Inl NoMovePath)
         else (case reconstructPath (length seen) seen from to [] of
                 None \<Rightarrow> None
               | Some (Inl e) \<Rightarrow> Some (withoutMover w from, Inl e)
               | Some (Inr path) \<Rightarrow> Some (w', Inr path)))"
proof -
  from getCube_wf[OF wf src] have has: "hasCube w from" and cp: "cube_p cube = from"
    by simp_all
  from wf_removeCubeUnmarked[OF wf has] obtain w1 where
    rm: "removeCubeUnmarked w from = Inr w1" and wf1: "wf_world w1"
    and occ1: "occupied w1 = occupied w - {from}" by blast
  have wm: "withoutMover w from = w1" by (simp add: withoutMover_def rm)
  have free: "from \<notin> occupied w1" using occ1 by simp
  from restore_cube[OF wf1 free, of "color cube" "componentStatus cube"] obtain w2 where
    add: "addCubeUnmarked w1 from (color cube) = Inr w2"
    and wf3: "wf_world (setLastStatus w2 (componentStatus cube))"
    and occ3: "occupied (setLastStatus w2 (componentStatus cube)) = insert from (occupied w1)"
    and gc: "getCube (setLastStatus w2 (componentStatus cube)) from
               = Some ((newCube from (color cube))\<lparr>componentStatus := componentStatus cube\<rparr>)"
    by blast
  have "from \<in> occupied w" using has wf_hasCube[OF wf] by simp
  then have occ3': "occupied (setLastStatus w2 (componentStatus cube)) = occupied w"
    unfolding occ3 occ1 by blast
  from shortestMovePathLoop_correct[OF wf1 planInv_init[of w1 "from" to]] obtain seen where
    loop: "shortestMovePathLoop w1 to [] [(from, None)] = Inr seen"
    and sok: "seenOK w1 from seen"
    and compl: "reachable w1 from to \<longrightarrow> to \<in> seenKeys seen" by blast
  have iff: "(to \<in> seenKeys seen) = reachable w1 from to"
    using compl seenOK_reachable[OF sok] by blast
  have mo: "(map_of seen to = None) = (to \<notin> seenKeys seen)"
    using map_of_seenKeys[of seen to] by blast
  have "shortestMovePath w from to =
        (if to \<notin> seenKeys seen then Some (setLastStatus w2 (componentStatus cube), Inl NoMovePath)
         else (case reconstructPath (length seen) seen from to [] of
                 None \<Rightarrow> None
               | Some (Inl e) \<Rightarrow> Some (w1, Inl e)
               | Some (Inr path) \<Rightarrow> Some (setLastStatus w2 (componentStatus cube), Inr path)))"
    by (simp add: shortestMovePath_def src rm loop cp add mo del: shortestMovePathLoop.simps
          split: option.splits sum.splits)
  with wf1 occ1 wf3 occ3' gc sok iff show ?thesis unfolding wm by blast
qed

subsection \<open>Executing a path\<close>

lemma isValidIgnoreConnectivity_cong:
  assumes "\<And>q. q \<noteq> position m \<Longrightarrow> hasCube w' q = hasCube w q"
  shows "isValidIgnoreConnectivity w' m = isValidIgnoreConnectivity w m"
proof -
  obtain x y where pm: "position m = (x, y)" by (cases "position m")
  have m: "m = \<lparr>position = (x, y), direction = direction m\<rparr>"
    using pm Move_eq[of m] by simp
  have h: "\<And>a b. (a, b) \<noteq> (x, y) \<Longrightarrow> hasCube w' (a, b) = hasCube w (a, b)"
    using assms pm by simp
  have "isValidIgnoreConnectivity w' \<lparr>position = (x, y), direction = d\<rparr>
          = isValidIgnoreConnectivity w \<lparr>position = (x, y), direction = d\<rparr>" for d
    by (cases d) (simp_all add: isValidIgnoreConnectivity_simps h)
  then show ?thesis using m by metis
qed

lemma validMoves_connected:
  assumes wf: "wf_world w" and m: "m \<in> set (validMoves w a)"
  shows "connected4 (occupied w - {a})"
proof -
  have c: "isConnected w (Some a) = Inr (connected4 (occupied w - {a}))"
    using isConnected_correct[OF wf, of "Some a"] by simp
  show ?thesis
  proof (rule ccontr)
    assume "\<not> connected4 (occupied w - {a})"
    then have "validMoves w a = []"
      by (simp add: validMoves_def validMovesFrom_def c)
    with m show False by simp
  qed
qed

lemma runMoves_path:
  "wf_world w' \<Longrightarrow> wf_world w1 \<Longrightarrow> a \<notin> occupied w1 \<Longrightarrow> occupied w' = insert a (occupied w1) \<Longrightarrow>
   isMovePath w1 a ms b \<Longrightarrow>
   \<exists>w''. runMoves w' ms = Inr w'' \<and> wf_world w'' \<and> occupied w'' = insert b (occupied w1)
        \<and> b \<notin> occupied w1"
proof (induction ms arbitrary: w' a)
  case Nil
  then show ?case by simp
next
  case (Cons m ms)
  note wf' = Cons.prems(1) and wf1 = Cons.prems(2) and free = Cons.prems(3)
    and occ = Cons.prems(4)
  from Cons.prems(5) have mv: "m \<in> set (validMoves w1 a)"
    and rest: "isMovePath w1 (targetPosition m) ms b" by simp_all
  from validMoves_position[OF mv] have pos: "position m = a"
    and loc1: "isValidIgnoreConnectivity w1 m" by simp_all
  have conn: "connected4 (occupied w1 - {a})" by (rule validMoves_connected[OF wf1 mv])
  have same: "hasCube w' q = hasCube w1 q" if "q \<noteq> position m" for q
    using that wf_hasCube[OF wf'] wf_hasCube[OF wf1] occ pos by simp
  have loc: "isValidIgnoreConnectivity w' m"
    using isValidIgnoreConnectivity_cong[of m w' w1] same loc1 by blast
  have o1: "occupied w' - {position m} = occupied w1 - {a}"
    unfolding occ pos using free by blast
  have v: "isValid w' m = Inr True"
    unfolding isValid_iff[OF wf'] o1 using loc conn by simp
  have tfree': "\<not> hasCube w' (targetPosition m)"
    using loc by (rule isValidIgnoreConnectivity_target_free)
  have tfree1: "targetPosition m \<notin> occupied w1"
    using isValidIgnoreConnectivity_target_free[OF loc1] wf_hasCube[OF wf1] by simp
  have src: "hasCube w' a" using wf_hasCube[OF wf'] occ by simp
  then obtain k where k: "getCubeId w' a = Some k"
    by (auto simp: hasCube_def getCube_def split: option.splits)
  obtain w2 where ex: "executeUnmarked w' m = Inr w2"
    using src tfree' k pos by (simp add: executeUnmarked_def moveCubeUnmarked_def)
  then have mc: "moveCubeUnmarked w' a (targetPosition m) = Inr w2"
    using pos by (simp add: executeUnmarked_def)
  from wf_moveCubeUnmarked[OF wf' mc] have wf2: "wf_world w2"
    and occ2: "occupied w2 = insert (targetPosition m) (occupied w' - {a})" by simp_all
  have occ2': "occupied w2 = insert (targetPosition m) (occupied w1)"
    unfolding occ2 occ using free by blast
  from Cons.IH[OF wf2 wf1 tfree1 occ2' rest] obtain w'' where
    r: "runMoves w2 ms = Inr w''" "wf_world w''" "occupied w'' = insert b (occupied w1)"
       "b \<notin> occupied w1"
    by blast
  have "runMoves w' (m # ms) = Inr w''" using v ex r(1) by simp
  with r show ?case by blast
qed

lemma reachable_support:
  assumes "reachable w a b"
  shows "b = a \<or> (\<exists>q \<in> set (neighborCells b). hasCube w q)"
proof -
  from assms obtain ms where ms: "isMovePath w a ms b" unfolding reachable_def by blast
  show ?thesis
  proof (cases "ms = []")
    case True
    with ms show ?thesis by simp
  next
    case False
    then obtain ms' m where snoc: "ms = ms' @ [m]" by (metis rev_exhaust)
    from isMovePath_snocD[OF ms[unfolded snoc]] obtain p where
      p: "m \<in> set (validMoves w p)" "targetPosition m = b" by blast
    from validMoves_position[OF p(1)] have v: "isValidIgnoreConnectivity w m" by simp
    obtain x y where pm: "position m = (x, y)" by (cases "position m")
    have m: "m = \<lparr>position = (x, y), direction = direction m\<rparr>"
      using pm Move_eq[of m] by simp
    from v m have "isValidIgnoreConnectivity w \<lparr>position = (x, y), direction = direction m\<rparr>"
      by simp
    from valid_target_has_neighbor[OF this] m
    obtain q where "q \<in> set (neighborCells (targetPosition m))" "hasCube w q"
      by auto
    then show ?thesis using p(2) by blast
  qed
qed


definition ushapePath :: "Move list" where
  "ushapePath = [\<lparr>position = (2, 1), direction = W\<rparr>, \<lparr>position = (1, 1), direction = NW\<rparr>,
                 \<lparr>position = (0, 2), direction = WS\<rparr>]"



subsection \<open>The root of the outside walk\<close>

definition hook :: "Position list" where
  "hook = [(1, 1), (1, 0), (0, 0)]"

lemma downmostLeftmost_minimal:
  assumes wf: "wf_world w" and root: "downmostLeftmost w = Some root"
  shows "root \<in> set (cubes w) \<and> cube_p root \<in> occupied w
     \<and> (\<forall>c \<in> occupied w. snd (cube_p root) \<le> snd c
            \<and> (snd c = snd (cube_p root) \<longrightarrow> fst (cube_p root) \<le> fst c))"
proof -
  from root have ne: "cubes w \<noteq> []" and g: "getCube w (downmostLeftmostCell w) = Some root"
    by (auto simp: downmostLeftmost_def split: if_splits)
  from g obtain i where i: "i < length (cubes w)" "root = cubes w ! i"
    by (auto simp: getCube_def split: option.splits if_splits)
  then have mem: "root \<in> set (cubes w)" by simp
  have p: "cube_p root = downmostLeftmostCell w" using getCube_wf[OF wf g] by simp
  from downmostLeftmostCell_props[OF ne] obtain c where
    cm: "c \<in> set (cubes w)" and
    c: "cube_p c = downmostLeftmostCell w"
       "\<forall>c' \<in> set (cubes w). snd (cube_p c) \<le> snd (cube_p c')
            \<and> (snd (cube_p c') = snd (cube_p c) \<longrightarrow> fst (cube_p c) \<le> fst (cube_p c'))"
    by (elim bexE conjE) (rule that)
  have pc: "cube_p c = cube_p root" using c(1) p by simp
  have "snd (cube_p root) \<le> snd q \<and> (snd q = snd (cube_p root) \<longrightarrow> fst (cube_p root) \<le> fst q)"
    if "q \<in> occupied w" for q
  proof -
    from that obtain c' where "c' \<in> set (cubes w)" "cube_p c' = q"
      unfolding occupied_def by auto
    with c(2) show ?thesis unfolding pc by blast
  qed
  moreover have "cube_p root \<in> occupied w" using mem unfolding occupied_def by simp
  ultimately show ?thesis using mem by blast
qed

lemma outsideCubes_cycle_min:
  assumes wf: "wf_world w" and ne: "cubes w \<noteq> []"
  shows "\<exists>root outside ids edges.
      downmostLeftmost w = Some root
    \<and> cube_p root \<in> occupied w
    \<and> (\<forall>c \<in> occupied w. snd (cube_p root) \<le> snd c
            \<and> (snd c = snd (cube_p root) \<longrightarrow> fst (cube_p root) \<le> fst c))
    \<and> outsideCubes w = Inr outside
    \<and> outside \<noteq> [] \<and> hd outside = root \<and> last outside = root
    \<and> outsideWalk w = Inr (ids, edges) \<and> outside = map (\<lambda>i. cubes w ! i) ids
    \<and> walkTrace w (cube_p root) ids edges
    \<and> distinct edges"
proof -
  from outsideCubes_cycle_aux[OF wf ne] obtain root outside ids edges where
    a: "downmostLeftmost w = Some root" "outsideCubes w = Inr outside"
       "outside \<noteq> []" "hd outside = root" "last outside = root"
       "outsideWalk w = Inr (ids, edges)" "outside = map (\<lambda>i. cubes w ! i) ids"
       "walkTrace w (cube_p root) ids edges" "distinct edges"
    by blast
  from downmostLeftmost_minimal[OF wf a(1)] have
    m: "cube_p root \<in> occupied w"
       "\<forall>c \<in> occupied w. snd (cube_p root) \<le> snd c
            \<and> (snd c = snd (cube_p root) \<longrightarrow> fst (cube_p root) \<le> fst c)"
    by simp_all
  from a m show ?thesis by blast
qed

subsection \<open>The tags of a disconnected configuration\<close>

lemma markComponents_disconnected:
  assumes wf: "wf_world w" and dis: "\<not> connected4 (occupied w)"
    and m: "markComponents w = Inr w'"
  shows "\<forall>c \<in> set (cubes w'). componentStatus c = NONE"
proof -
  have ne: "cubes w \<noteq> []"
  proof
    assume "cubes w = []"
    then have "occupied w = {}" by (simp add: occupied_def)
    with dis show False by (simp add: connected4_empty)
  qed
  let ?n = "length (cubes w)"
  have ic: "isConnected w None = Inr False"
    using isConnected_correct[OF wf, of None] dis by simp
  have fc: "findComponents w = Inr (replicate ?n (- 1), replicate ?n (- 1))"
    using ne ic by (simp add: findComponents_def Let_def)
  from findCubeStability_no_error[OF wf] obtain stability where
    st: "findCubeStability w = Inr stability" by blast
  from outsideWalk_cycle[OF wf ne] obtain ids edges where
    ow: "outsideWalk w = Inr (ids, edges)" by blast
  let ?f = "\<lambda>i. (cubes w ! i)
     \<lparr>componentStatus := statusOf (replicate ?n (- 1) ! i) (stability ! i),
      chunkId := replicate ?n (- 1) ! i, onBoundary := (i \<in> set ids)\<rparr>"
  have w': "w' = w\<lparr>cubes := map ?f [0..<?n]\<rparr>"
    using m fc st ow by (simp add: markComponents_def)
  show ?thesis
  proof
    fix c assume "c \<in> set (cubes w')"
    then obtain i where i: "i < ?n" "c = ?f i" unfolding w' by auto
    then show "componentStatus c = NONE" by (simp add: statusOf_def)
  qed
qed

lemma addCube_tags:
  assumes wf: "wf_world w" and a: "addCube w pp c = Inr w1"
  shows "wf_world w1 \<and> (\<not> connected4 (occupied w1)
           \<longrightarrow> (\<forall>c \<in> set (cubes w1). componentStatus c = NONE))"
proof -
  from a obtain w0 where add: "addCubeUnmarked w pp c = Inr w0"
    and m: "markComponents w0 = Inr w1"
    by (auto simp: addCube_def split: sum.splits)
  have wf0: "wf_world w0" by (rule wf_addCubeUnmarked[OF wf add])
  have wf1: "wf_world w1" by (rule wf_markComponents[OF wf0 m])
  from markComponents_result[OF wf0] m have "map cube_p (cubes w1) = map cube_p (cubes w0)"
    by auto
  then have occ: "occupied w1 = occupied w0" by (simp add: occupied_def)
  show ?thesis
    using wf1 markComponents_disconnected[OF wf0 _ m] unfolding occ by blast
qed

lemma deserialize_fold_tags:
  "wf_world w \<Longrightarrow> foldE deserializeCube cjs w = Inr w' \<Longrightarrow> cjs \<noteq> [] \<Longrightarrow>
   \<not> connected4 (occupied w') \<Longrightarrow> \<forall>c \<in> set (cubes w'). componentStatus c = NONE"
proof (induction cjs arbitrary: w)
  case Nil
  then show ?case by simp
next
  case (Cons cj cjs)
  from Cons.prems(2) obtain w1 where s: "deserializeCube cj w = Inr w1"
    and rest: "foldE deserializeCube cjs w1 = Inr w'"
    by (auto split: sum.splits)
  from s have a: "addCube w (jsonX cj, jsonY cj)
       (case jsonColor cj of None \<Rightarrow> BLUE | Some (r, g, b) \<Rightarrow> Color r g b) = Inr w1"
    by (simp add: deserializeCube_def)
  from addCube_tags[OF Cons.prems(1) a] have wf1: "wf_world w1"
    and t: "\<not> connected4 (occupied w1) \<longrightarrow> (\<forall>c \<in> set (cubes w1). componentStatus c = NONE)"
    by simp_all
  show ?case
  proof (cases "cjs = []")
    case True
    with rest have "w' = w1" by simp
    with t Cons.prems(4) show ?thesis by simp
  next
    case False
    from Cons.IH[OF wf1 rest False Cons.prems(4)] show ?thesis .
  qed
qed

lemma deserialize_tags:
  assumes d: "deserialize emptyWorld obj = Inr w" and dis: "\<not> connected4 (occupied w)"
  shows "\<forall>c \<in> set (cubes w). componentStatus c = NONE"
proof -
  from d have f: "foldE deserializeCube (jsonCubes obj) emptyWorld = Inr w"
    by (auto simp: deserialize_def split: if_splits)
  have "jsonCubes obj \<noteq> []"
  proof
    assume "jsonCubes obj = []"
    with f have "w = emptyWorld" by simp
    with dis show False by (simp add: occupied_emptyWorld connected4_empty)
  qed
  from deserialize_fold_tags[OF wf_emptyWorld f this dis] show ?thesis .
qed

subsection \<open>The move graph in the words of the specification\<close>

text \<open>The specification describes the graph that the planner searches with the mover taken out:
  its vertices are the cells, and from a cell its edges are all the moves that
  \<^verbatim>\<open>isValidIgnoreConnectivity\<close> accepts. (The graph \<open>validMoves\<close> above is the one the code
  searches: \<^verbatim>\<open>validMovesFrom\<close> returns no move at all when the cubes are not connected.)\<close>

definition specMoves :: "World \<Rightarrow> Position \<Rightarrow> Move list" where
  "specMoves w a =
     filter (isValidIgnoreConnectivity w) (map (\<lambda>d. \<lparr>position = a, direction = d\<rparr>) allDirections)"

fun isSpecPath :: "World \<Rightarrow> Position \<Rightarrow> Move list \<Rightarrow> Position \<Rightarrow> bool" where
  "isSpecPath w a [] b = (a = b)"
| "isSpecPath w a (m # ms) b =
     (m \<in> set (specMoves w a) \<and> isSpecPath w (targetPosition m) ms b)"

definition specReachable :: "World \<Rightarrow> Position \<Rightarrow> Position \<Rightarrow> bool" where
  "specReachable w a b = (\<exists>ms. isSpecPath w a ms b)"

definition specDist :: "World \<Rightarrow> Position \<Rightarrow> Position \<Rightarrow> nat" where
  "specDist w a b = (LEAST n. \<exists>ms. isSpecPath w a ms b \<and> length ms = n)"

lemma validMoves_specMoves:
  assumes wf: "wf_world w" and conn: "connected4 (occupied w)" and free: "a \<notin> occupied w"
  shows "validMoves w a = specMoves w a"
proof -
  have "occupied w - {a} = occupied w" using free by simp
  then have "isConnected w (Some a) = Inr True"
    using isConnected_correct[OF wf, of "Some a"] conn by simp
  then show ?thesis by (simp add: validMoves_def validMovesFrom_def specMoves_def)
qed

lemma specMoves_target_free:
  assumes wf: "wf_world w" and m: "m \<in> set (specMoves w a)"
  shows "targetPosition m \<notin> occupied w"
proof -
  from m have "isValidIgnoreConnectivity w m" by (simp add: specMoves_def)
  from isValidIgnoreConnectivity_target_free[OF this] show ?thesis
    using wf_hasCube[OF wf] by simp
qed

lemma isSpecPath_isMovePath:
  assumes wf: "wf_world w" and conn: "connected4 (occupied w)"
  shows "a \<notin> occupied w \<Longrightarrow> isSpecPath w a ms b = isMovePath w a ms b"
proof (induction ms arbitrary: a)
  case Nil
  then show ?case by simp
next
  case (Cons m ms)
  have eq: "validMoves w a = specMoves w a"
    by (rule validMoves_specMoves[OF wf conn Cons.prems])
  show ?case
  proof (cases "m \<in> set (specMoves w a)")
    case True
    from specMoves_target_free[OF wf True] have "targetPosition m \<notin> occupied w" .
    from Cons.IH[OF this] show ?thesis using True eq by simp
  next
    case False
    then show ?thesis using eq by simp
  qed
qed

lemma specReachable_reachable:
  assumes "wf_world w" "connected4 (occupied w)" "a \<notin> occupied w"
  shows "specReachable w a b = reachable w a b"
  unfolding specReachable_def reachable_def isSpecPath_isMovePath[OF assms] ..

lemma specDist_moveDist:
  assumes "wf_world w" "connected4 (occupied w)" "a \<notin> occupied w"
  shows "specDist w a b = moveDist w a b"
  unfolding specDist_def moveDist_def isSpecPath_isMovePath[OF assms] ..

text \<open>Every edge of the graph that the code searches is an edge of the graph of the
  specification, so what the code can reach the specification can reach.\<close>

lemma validMoves_subset_specMoves: "set (validMoves w a) \<subseteq> set (specMoves w a)"
  by (auto simp: validMoves_def validMovesFrom_def specMoves_def split: sum.splits if_splits)

lemma isMovePath_isSpecPath: "isMovePath w a ms b \<Longrightarrow> isSpecPath w a ms b"
proof (induction ms arbitrary: a)
  case Nil
  then show ?case by simp
next
  case (Cons m ms)
  from Cons.prems have m: "m \<in> set (validMoves w a)"
    and p: "isMovePath w (targetPosition m) ms b" by simp_all
  have "m \<in> set (specMoves w a)" using m validMoves_subset_specMoves by blast
  with Cons.IH[OF p] show ?case by simp
qed

lemma reachable_specReachable: "reachable w a b \<Longrightarrow> specReachable w a b"
  unfolding reachable_def specReachable_def using isMovePath_isSpecPath by blast

definition cutMove :: "Move list" where
  "cutMove = [\<lparr>position = (1, 0), direction = N\<rparr>]"


section \<open>Claims\<close>

text \<open>
  C4. For a cube at cell \<open>(x, y)\<close> with neighbourhood flags \<open>has\<close>, \<^verbatim>\<open>isValidIgnoreConnectivity\<close>
  holds for the slide N exactly when the target cell is empty and
  \<open>(has[W] \<and> has[NW]) \<or> (has[E] \<and> has[NE])\<close>, for the slides E, S and W exactly when the
  rotated condition holds, and for a corner move \<open>d1d2\<close> exactly when the target cell (one
  step along \<open>d1\<close> and one along \<open>d2\<close>) is empty, \<open>has[d1]\<close> is false and \<open>has[d2]\<close> is true.
\<close>

theorem isValidIgnoreConnectivity_table:
  "(let has = hasNeighbors w (x, y);
        valid = (\<lambda>d. isValidIgnoreConnectivity w \<lparr>position = (x, y), direction = d\<rparr>);
        empty = (\<lambda>q. \<not> hasCube w q)
    in (valid N = (empty (x, y + 1) \<and> ((has ''W'' \<and> has ''NW'') \<or> (has ''E'' \<and> has ''NE''))))
     \<and> (valid E = (empty (x + 1, y) \<and> ((has ''N'' \<and> has ''NE'') \<or> (has ''S'' \<and> has ''SE''))))
     \<and> (valid S = (empty (x, y - 1) \<and> ((has ''E'' \<and> has ''SE'') \<or> (has ''W'' \<and> has ''SW''))))
     \<and> (valid W = (empty (x - 1, y) \<and> ((has ''S'' \<and> has ''SW'') \<or> (has ''N'' \<and> has ''NW''))))
     \<and> (valid NW = (empty (x - 1, y + 1) \<and> \<not> has ''N'' \<and> has ''W''))
     \<and> (valid NE = (empty (x + 1, y + 1) \<and> \<not> has ''N'' \<and> has ''E''))
     \<and> (valid EN = (empty (x + 1, y + 1) \<and> \<not> has ''E'' \<and> has ''N''))
     \<and> (valid ES = (empty (x + 1, y - 1) \<and> \<not> has ''E'' \<and> has ''S''))
     \<and> (valid SE = (empty (x + 1, y - 1) \<and> \<not> has ''S'' \<and> has ''E''))
     \<and> (valid SW = (empty (x - 1, y - 1) \<and> \<not> has ''S'' \<and> has ''W''))
     \<and> (valid WS = (empty (x - 1, y - 1) \<and> \<not> has ''W'' \<and> has ''S''))
     \<and> (valid WN = (empty (x - 1, y + 1) \<and> \<not> has ''W'' \<and> has ''N'')))"
  unfolding Let_def
  by (intro conjI; auto simp add: isValidIgnoreConnectivity_def targetPosition_def
        targetPositionFromFields_def hasCube_def Let_def)


text \<open>
  C2, as amended. Whenever \<^verbatim>\<open>isValid\<close> accepts a move of a cube, the target cell was empty
  before the move, executing the move succeeds, and the configuration it leaves is
  4-connected. (The converse of the claim fails: \<^verbatim>\<open>isValid\<close> also demands the support rule of
  the direction, see the counterexample below.)
\<close>

theorem isValid_sound:
  assumes wf: "wf_world w" and src: "hasCube w (position m)" and v: "isValid w m = Inr True"
  shows "\<not> hasCube w (targetPosition m) \<and>
     (\<exists>w'. executeUnmarked w m = Inr w' \<and> wf_world w'
        \<and> occupied w' = insert (targetPosition m) (occupied w - {position m})
        \<and> connected4 (occupied w'))"
proof -
  from v have loc: "isValidIgnoreConnectivity w m"
    and conn: "connected4 (occupied w - {position m})"
    using isValid_iff[OF wf, of m] by auto
  have free: "\<not> hasCube w (targetPosition m)"
    using loc by (rule isValidIgnoreConnectivity_target_free)
  from wf src obtain k where k: "getCubeId w (position m) = Some k"
    by (auto simp: hasCube_def getCube_def split: option.splits)
  then obtain w' where ex: "executeUnmarked w m = Inr w'"
    using src free by (simp add: executeUnmarked_def moveCubeUnmarked_def)
  then have mv: "moveCubeUnmarked w (position m) (targetPosition m) = Inr w'"
    by (simp add: executeUnmarked_def)
  from wf_moveCubeUnmarked[OF wf mv]
  have wf': "wf_world w'"
    and occ: "occupied w' = insert (targetPosition m) (occupied w - {position m})"
    by auto
  from valid_support[OF loc] obtain q where q: "adjacent (targetPosition m) q"
    "q \<noteq> position m" "hasCube w q" by blast
  then have "q \<in> occupied w - {position m}"
    using wf_hasCube[OF wf] by simp
  from connected4_insert[OF conn this q(1)] have "connected4 (occupied w')"
    unfolding occ .
  with free ex wf' occ show ?thesis by blast
qed

theorem isValid_sound_witness:
  "wf_world (theWorld ushape)
   \<and> hasCube (theWorld ushape) (position \<lparr>position = (2, 1), direction = W\<rparr>)
   \<and> isValid (theWorld ushape) \<lparr>position = (2, 1), direction = W\<rparr> = Inr True
   \<and> \<not> hasCube (theWorld ushape) (1, 1)
   \<and> map_sum id occupied (executeUnmarked (theWorld ushape) \<lparr>position = (2, 1), direction = W\<rparr>)
       = Inr {(0, 0), (1, 0), (2, 0), (0, 1), (1, 1)}
   \<and> connected4 {(0, 0), (1, 0), (2, 0), (0, 1), (1, 1)}"
proof -
  let ?m = "\<lparr>position = (2, 1), direction = W\<rparr>"
  have wf: "wf_world (theWorld ushape)" by (rule wf_theWorld)
  have src: "hasCube (theWorld ushape) (position ?m)" by code_simp
  have v: "isValid (theWorld ushape) ?m = Inr True" by code_simp
  have t: "targetPosition ?m = (1, 1)" by (simp add: targetPosition_simps)
  have occ: "occupied (theWorld ushape) = {(0, 0), (1, 0), (2, 0), (0, 1), (2, 1)}"
    by code_simp
  from isValid_sound[OF wf src v] obtain w' where
    free: "\<not> hasCube (theWorld ushape) (targetPosition ?m)" and
    ex: "executeUnmarked (theWorld ushape) ?m = Inr w'" and
    occ': "occupied w' = insert (targetPosition ?m) (occupied (theWorld ushape) - {position ?m})" and
    conn: "connected4 (occupied w')"
    by blast
  have "occupied w' = {(0, 0), (1, 0), (2, 0), (0, 1), (1, 1)}"
    unfolding occ' occ t by auto
  with wf src v free ex conn t show ?thesis by simp
qed

text \<open>
  C2 as stated fails from right to left: with cubes at \<open>(0, 0)\<close> and \<open>(1, 0)\<close>, the move WN of
  the cube at \<open>(1, 0)\<close> has an empty target \<open>(0, 1)\<close> and leaves the connected configuration
  \<open>{(0, 0), (0, 1)}\<close>, yet \<^verbatim>\<open>isValid\<close> rejects it (a cube stands to the west).
\<close>

theorem isValid_complete_counterexample:
  "connected4 (occupied (theWorld twoCubes))
   \<and> hasCube (theWorld twoCubes) (1, 0)
   \<and> targetPosition \<lparr>position = (1, 0), direction = WN\<rparr> = (0, 1)
   \<and> \<not> hasCube (theWorld twoCubes) (0, 1)
   \<and> map_sum id occupied (executeUnmarked (theWorld twoCubes) \<lparr>position = (1, 0), direction = WN\<rparr>)
       = Inr {(0, 0), (0, 1)}
   \<and> connected4 {(0, 0), (0, 1)}
   \<and> isValid (theWorld twoCubes) \<lparr>position = (1, 0), direction = WN\<rparr> = Inr False"
proof -
  let ?m = "\<lparr>position = (1, 0), direction = WN\<rparr>"
  have wf: "wf_world (theWorld twoCubes)" by (rule wf_theWorld)
  have "isConnected (theWorld twoCubes) None = Inr True" by code_simp
  then have c: "connected4 (occupied (theWorld twoCubes))"
    using isConnected_correct[OF wf, of None] by simp
  have src: "hasCube (theWorld twoCubes) (1, 0)" by code_simp
  have t: "targetPosition ?m = (0, 1)" by (simp add: targetPosition_simps)
  have free: "\<not> hasCube (theWorld twoCubes) (0, 1)" by code_simp
  have occ: "occupied (theWorld twoCubes) = {(0, 0), (1, 0)}" by code_simp
  obtain w' where ex: "executeUnmarked (theWorld twoCubes) ?m = Inr w'"
    using src free t by (simp add: executeUnmarked_def moveCubeUnmarked_def split: option.splits)
       (auto simp: hasCube_def getCube_def split: option.splits)
  then have mv: "moveCubeUnmarked (theWorld twoCubes) (1, 0) (0, 1) = Inr w'"
    using t by (simp add: executeUnmarked_def)
  from wf_moveCubeUnmarked[OF wf mv] have wf': "wf_world w'"
    and occ': "occupied w' = {(0, 0), (0, 1)}"
    unfolding occ by auto
  have "isConnected w' None = Inr True"
  proof -
    have "(case executeUnmarked (theWorld twoCubes) ?m of
             Inl e \<Rightarrow> False | Inr w' \<Rightarrow> isConnected w' None = Inr True)"
      by code_simp
    with ex show ?thesis by simp
  qed
  then have c': "connected4 {(0, 0), (0, 1)}"
    using isConnected_correct[OF wf', of None] occ' by simp
  have inv: "isValid (theWorld twoCubes) ?m = Inr False" by code_simp
  from c src t free ex occ' c' inv show ?thesis by simp
qed


text \<open>
  C10. In a well-formed world \<^verbatim>\<open>validMovesFrom(p)\<close> returns exactly the moves from \<open>p\<close> that
  \<^verbatim>\<open>isValid\<close> accepts, and the empty list when the configuration without the cube at \<open>p\<close> is
  not 4-connected.
\<close>

theorem validMovesFrom_exact:
  assumes wf: "wf_world w"
  shows "\<exists>ms. validMovesFrom w pp = Inr ms
     \<and> (\<forall>m. m \<in> set ms \<longleftrightarrow> (position m = pp \<and> isValid w m = Inr True))
     \<and> (\<not> connected4 (occupied w - {pp}) \<longrightarrow> ms = [])"
proof -
  have conn: "isConnected w (Some pp) = Inr (connected4 (occupied w - {pp}))"
    using isConnected_correct[OF wf, of "Some pp"] by simp
  have dirs: "set allDirections = UNIV"
  proof -
    have "d \<in> set allDirections" for d
      by (cases d) (simp_all add: allDirections_def)
    then show ?thesis by blast
  qed
  show ?thesis
  proof (cases "connected4 (occupied w - {pp})")
    case False
    then have "validMovesFrom w pp = Inr []"
      using conn by (simp add: validMovesFrom_def)
    moreover have "isValid w m \<noteq> Inr True" if "position m = pp" for m
      using isValid_iff[OF wf, of m] that False by simp
    ultimately show ?thesis by auto
  next
    case True
    let ?ms = "filter (isValidIgnoreConnectivity w)
                 (map (\<lambda>d. \<lparr>position = pp, direction = d\<rparr>) allDirections)"
    have vm: "validMovesFrom w pp = Inr ?ms"
      using conn True by (simp add: validMovesFrom_def)
    have "m \<in> set ?ms \<longleftrightarrow> (position m = pp \<and> isValid w m = Inr True)" for m
    proof
      assume "m \<in> set ?ms"
      then have "position m = pp" "isValidIgnoreConnectivity w m" by auto
      then show "position m = pp \<and> isValid w m = Inr True"
        using isValid_iff[OF wf, of m] True by simp
    next
      assume a: "position m = pp \<and> isValid w m = Inr True"
      then have "isValidIgnoreConnectivity w m"
        using isValid_iff[OF wf, of m] by simp
      moreover have "m = \<lparr>position = pp, direction = direction m\<rparr>"
        using a Move_eq[of m] by simp
      then have "m \<in> (\<lambda>d. \<lparr>position = pp, direction = d\<rparr>) ` set allDirections"
        unfolding dirs by blast
      ultimately show "m \<in> set ?ms" by simp
    qed
    with vm True show ?thesis by blast
  qed
qed


theorem validMovesFrom_exact_witness:
  "wf_world (theWorld ushape)
   \<and> \<not> connected4 (occupied (theWorld ushape) - {(1, 0)})
   \<and> validMovesFrom (theWorld ushape) (1, 0) = Inr []
   \<and> validMovesFrom (theWorld ushape) (2, 1)
       = Inr [\<lparr>position = (2, 1), direction = W\<rparr>, \<lparr>position = (2, 1), direction = ES\<rparr>]
   \<and> isValid (theWorld ushape) \<lparr>position = (2, 1), direction = W\<rparr> = Inr True
   \<and> isValid (theWorld ushape) \<lparr>position = (2, 1), direction = ES\<rparr> = Inr True"
proof -
  have wf: "wf_world (theWorld ushape)" by (rule wf_theWorld)
  have "isConnected (theWorld ushape) (Some (1, 0)) = Inr False" by code_simp
  then have nc: "\<not> connected4 (occupied (theWorld ushape) - {(1, 0)})"
    using isConnected_correct[OF wf, of "Some (1, 0)"] by simp
  from validMovesFrom_exact[OF wf, of "(1, 0)"] nc
  have 1: "validMovesFrom (theWorld ushape) (1, 0) = Inr []" by auto
  have 2: "validMovesFrom (theWorld ushape) (2, 1)
       = Inr [\<lparr>position = (2, 1), direction = W\<rparr>, \<lparr>position = (2, 1), direction = ES\<rparr>]"
    by code_simp
  from validMovesFrom_exact[OF wf, of "(2, 1)"] 2
  have "isValid (theWorld ushape) \<lparr>position = (2, 1), direction = W\<rparr> = Inr True"
    and "isValid (theWorld ushape) \<lparr>position = (2, 1), direction = ES\<rparr> = Inr True"
    by auto
  with wf nc 1 2 show ?thesis by simp
qed


text \<open>
  C5, as amended. Loading the U-shape \<open>{(0,0), (1,0), (2,0), (0,1), (2,1)}\<close> tags the three
  cubes of the bottom row \<open>(0, 0)\<close>, \<open>(1, 0)\<close> and \<open>(2, 0)\<close> as LinkCut and the two tips
  \<open>(0, 1)\<close> and \<open>(2, 1)\<close> as LinkStable: the shape is a path, its outside walk closes no
  cycle, so no cube becomes a chunk cube or a connector.
\<close>

theorem ushape_classification:
  "classification (deserialize emptyWorld (instanceOf ushape))
     = Inr [((0, 0), LINK_CUT), ((1, 0), LINK_CUT), ((2, 0), LINK_CUT),
            ((0, 1), LINK_STABLE), ((2, 1), LINK_STABLE)]"
  by code_simp

text \<open>
  C5 as stated fails: the tags are not Connector for \<open>(1, 0)\<close> and ChunkStable for \<open>(0, 0)\<close>
  and \<open>(2, 0)\<close>.
\<close>

theorem ushape_classification_counterexample:
  "classification (deserialize emptyWorld (instanceOf ushape))
     \<noteq> Inr [((0, 0), CHUNK_STABLE), ((1, 0), CONNECTOR), ((2, 0), CHUNK_STABLE),
            ((0, 1), LINK_STABLE), ((2, 1), LINK_STABLE)]"
  by code_simp


text \<open>
  C7. In a well-formed world with at least one cube, connected or not, \<^verbatim>\<open>outsideCubes\<close> returns
  a list that starts and ends with the downmost-leftmost cube: the cube of the configuration
  whose cell has the least \<open>y\<close> and, among the cells of that row, the least \<open>x\<close>. The edges
  (cell, outgoing direction) that the walk traverses are the entries of \<^verbatim>\<open>edgesSeen\<close>, one per
  step, and no edge occurs twice.
\<close>

theorem outsideCubes_cyclic_walk:
  assumes "wf_world w" and "cubes w \<noteq> []"
  shows "\<exists>root outside ids edges.
      downmostLeftmost w = Some root
    \<and> cube_p root \<in> occupied w
    \<and> (\<forall>c \<in> occupied w. snd (cube_p root) \<le> snd c
            \<and> (snd c = snd (cube_p root) \<longrightarrow> fst (cube_p root) \<le> fst c))
    \<and> outsideCubes w = Inr outside
    \<and> outside \<noteq> [] \<and> hd outside = root \<and> last outside = root
    \<and> outsideWalk w = Inr (ids, edges) \<and> outside = map (\<lambda>i. cubes w ! i) ids
    \<and> walkTrace w (cube_p root) ids edges
    \<and> distinct edges"
  using assms by (rule outsideCubes_cycle_min)

theorem outsideCubes_cyclic_walk_witness:
  "wf_world (theWorld hook) \<and> cubes (theWorld hook) \<noteq> []
   \<and> map cube_p (cubes (theWorld hook)) = [(1, 1), (1, 0), (0, 0)]
   \<and> map_option cube_p (downmostLeftmost (theWorld hook)) = Some (0, 0)
   \<and> occupied (theWorld hook) = {(1, 1), (1, 0), (0, 0)}
   \<and> map_sum id (map cube_p) (outsideCubes (theWorld hook))
       = Inr [(0, 0), (1, 0), (1, 1), (1, 0), (0, 0)]
   \<and> map_sum id snd (outsideWalk (theWorld hook))
       = Inr [((0, 0), ''E''), ((1, 0), ''N''), ((1, 1), ''S''), ((1, 0), ''W'')]
   \<and> (case outsideWalk (theWorld hook) of Inl e \<Rightarrow> False | Inr r \<Rightarrow> distinct (snd r))"
proof -
  have wf: "wf_world (theWorld hook)" by (rule wf_theWorld)
  have ne: "cubes (theWorld hook) \<noteq> []" by code_simp
  have 0: "map cube_p (cubes (theWorld hook)) = [(1, 1), (1, 0), (0, 0)]" by code_simp
  have 1: "map_option cube_p (downmostLeftmost (theWorld hook)) = Some (0, 0)" by code_simp
  have 2: "map_sum id (map cube_p) (outsideCubes (theWorld hook))
       = Inr [(0, 0), (1, 0), (1, 1), (1, 0), (0, 0)]"
    by code_simp
  have 3: "map_sum id snd (outsideWalk (theWorld hook))
       = Inr [((0, 0), ''E''), ((1, 0), ''N''), ((1, 1), ''S''), ((1, 0), ''W'')]"
    by code_simp
  from outsideCubes_cyclic_walk[OF wf ne] obtain root ids edges where
    r: "outsideWalk (theWorld hook) = Inr (ids, edges)" "distinct edges"
    by blast
  have 4: "occupied (theWorld hook) = {(1, 1), (1, 0), (0, 0)}" by code_simp
  have 5: "case outsideWalk (theWorld hook) of Inl e \<Rightarrow> False | Inr r \<Rightarrow> distinct (snd r)"
    using r by simp
  from wf ne 0 1 2 3 4 5 show ?thesis by blast
qed


text \<open>
  C1, as amended. \<^verbatim>\<open>deserialize\<close> makes no connectivity test. Into an empty world it rejects an
  instance with \<open>BadVersion\<close> when the version is greater than 1, with \<open>OccupiedCell\<close> when a
  cell occurs twice, and otherwise constructs a world with one cube per entry, whether the
  cells are 4-connected or not; when they are not, every cube of the world it constructs
  carries the tag \<open>NONE\<close>.
\<close>

theorem deserialize_ignores_connectivity:
  "(versionRejected obj \<longrightarrow> deserialize emptyWorld obj = Inl BadVersion)
   \<and> (\<not> versionRejected obj \<and> \<not> distinct (map cellOf (jsonCubes obj))
        \<longrightarrow> deserialize emptyWorld obj = Inl OccupiedCell)
   \<and> (\<not> versionRejected obj \<and> distinct (map cellOf (jsonCubes obj))
        \<longrightarrow> (\<exists>w. deserialize emptyWorld obj = Inr w \<and> wf_world w
               \<and> map cube_p (cubes w) = map cellOf (jsonCubes obj)
               \<and> occupied w = set (map cellOf (jsonCubes obj))
               \<and> (\<not> connected4 (set (map cellOf (jsonCubes obj)))
                    \<longrightarrow> (\<forall>c \<in> set (cubes w). componentStatus c = NONE))))"
proof (intro conjI impI)
  assume "versionRejected obj"
  then show "deserialize emptyWorld obj = Inl BadVersion" by (rule deserialize_BadVersion)
next
  assume "\<not> versionRejected obj \<and> \<not> distinct (map cellOf (jsonCubes obj))"
  then show "deserialize emptyWorld obj = Inl OccupiedCell"
    using deserialize_clash by blast
next
  assume "\<not> versionRejected obj \<and> distinct (map cellOf (jsonCubes obj))"
  then obtain w where w: "deserialize emptyWorld obj = Inr w" "wf_world w"
    "map cube_p (cubes w) = map cellOf (jsonCubes obj)"
    using deserialize_ok by blast
  have occ: "occupied w = set (map cellOf (jsonCubes obj))"
    unfolding occupied_map w(3) ..
  have "\<not> connected4 (set (map cellOf (jsonCubes obj)))
          \<longrightarrow> (\<forall>c \<in> set (cubes w). componentStatus c = NONE)"
    using deserialize_tags[OF w(1)] unfolding occ by blast
  with w occ show "\<exists>w. deserialize emptyWorld obj = Inr w \<and> wf_world w
               \<and> map cube_p (cubes w) = map cellOf (jsonCubes obj)
               \<and> occupied w = set (map cellOf (jsonCubes obj))
               \<and> (\<not> connected4 (set (map cellOf (jsonCubes obj)))
                    \<longrightarrow> (\<forall>c \<in> set (cubes w). componentStatus c = NONE))"
    by blast
qed

theorem deserialize_ignores_connectivity_witness:
  "versionRejected ((instanceOf farApart)\<lparr>jsonVersion := Some 2\<rparr>)
   \<and> deserialize emptyWorld ((instanceOf farApart)\<lparr>jsonVersion := Some 2\<rparr>) = Inl BadVersion
   \<and> \<not> versionRejected (instanceOf [(0, 0), (0, 0)])
   \<and> \<not> distinct (map cellOf (jsonCubes (instanceOf [(0, 0), (0, 0)])))
   \<and> deserialize emptyWorld (instanceOf [(0, 0), (0, 0)]) = Inl OccupiedCell
   \<and> \<not> versionRejected (instanceOf farApart)
   \<and> distinct (map cellOf (jsonCubes (instanceOf farApart)))
   \<and> \<not> connected4 (set farApart)
   \<and> map_sum id (map cube_p \<circ> cubes) (deserialize emptyWorld (instanceOf farApart))
       = Inr farApart
   \<and> map_sum id (map componentStatus \<circ> cubes) (deserialize emptyWorld (instanceOf farApart))
       = Inr [NONE, NONE]"
proof -
  have 1: "versionRejected ((instanceOf farApart)\<lparr>jsonVersion := Some 2\<rparr>)" by code_simp
  have 2: "\<not> versionRejected (instanceOf [(0, 0), (0, 0)])" by code_simp
  have 3: "\<not> distinct (map cellOf (jsonCubes (instanceOf [(0, 0), (0, 0)])))" by code_simp
  have 4: "\<not> versionRejected (instanceOf farApart)" by code_simp
  have 5: "distinct (map cellOf (jsonCubes (instanceOf farApart)))" by code_simp
  have cells: "map cellOf (jsonCubes (instanceOf farApart)) = farApart" by code_simp
  have wf: "wf_world (theWorld farApart)" by (rule wf_theWorld)
  have occ: "occupied (theWorld farApart) = set farApart" by code_simp
  have "isConnected (theWorld farApart) None = Inr False" by code_simp
  then have 6: "\<not> connected4 (set farApart)"
    using isConnected_correct[OF wf, of None] occ by simp
  from deserialize_ignores_connectivity[of "(instanceOf farApart)\<lparr>jsonVersion := Some 2\<rparr>"] 1
  have a: "deserialize emptyWorld ((instanceOf farApart)\<lparr>jsonVersion := Some 2\<rparr>) = Inl BadVersion"
    by blast
  from deserialize_ignores_connectivity[of "instanceOf [(0, 0), (0, 0)]"] 2 3
  have b: "deserialize emptyWorld (instanceOf [(0, 0), (0, 0)]) = Inl OccupiedCell"
    by blast
  from deserialize_ignores_connectivity[of "instanceOf farApart"] 4 5
  obtain w where w: "deserialize emptyWorld (instanceOf farApart) = Inr w"
    "map cube_p (cubes w) = map cellOf (jsonCubes (instanceOf farApart))"
    "\<not> connected4 (set (map cellOf (jsonCubes (instanceOf farApart))))
       \<longrightarrow> (\<forall>c \<in> set (cubes w). componentStatus c = NONE)"
    by blast
  have c: "map_sum id (map cube_p \<circ> cubes) (deserialize emptyWorld (instanceOf farApart))
       = Inr farApart"
    using w(1,2) cells by simp
  have len: "length (cubes w) = 2"
    using w(2) cells by (metis length_map farApart_def length_Cons list.size(3) One_nat_def
        Suc_1)
  have tags: "\<forall>c \<in> set (cubes w). componentStatus c = NONE"
    using w(3) 6 unfolding cells by blast
  have "map componentStatus (cubes w) = [NONE, NONE]"
  proof (rule nth_equalityI)
    show "length (map componentStatus (cubes w)) = length [NONE, NONE]" using len by simp
    fix i assume "i < length (map componentStatus (cubes w))"
    then have i: "i < 2" using len by simp
    then have "cubes w ! i \<in> set (cubes w)" using len by simp
    then have "componentStatus (cubes w ! i) = NONE" using tags by blast
    then show "map componentStatus (cubes w) ! i = [NONE, NONE] ! i"
      using i len by (cases i) (simp_all add: less_Suc_eq)
  qed
  then have d: "map_sum id (map componentStatus \<circ> cubes)
      (deserialize emptyWorld (instanceOf farApart)) = Inr [NONE, NONE]"
    using w(1) by simp
  from 1 2 3 4 5 6 a b c d show ?thesis by blast
qed

text \<open>
  C1 as stated fails: the instance with an isolated cube at \<open>(2, 2)\<close> and the line
  \<open>(0, 0), (1, 0), (2, 0)\<close> is not 4-connected, and \<^verbatim>\<open>deserialize\<close> constructs a world from it.
\<close>

theorem deserialize_disconnected_counterexample:
  "\<not> connected4 (set isolatedCube)
   \<and> map_sum id occupied (deserialize emptyWorld (instanceOf isolatedCube)) = Inr (set isolatedCube)"
proof -
  have wf: "wf_world (theWorld isolatedCube)" by (rule wf_theWorld)
  have occ: "occupied (theWorld isolatedCube) = set isolatedCube" by code_simp
  have "isConnected (theWorld isolatedCube) None = Inr False" by code_simp
  then have "\<not> connected4 (set isolatedCube)"
    using isConnected_correct[OF wf, of None] occ by simp
  moreover have "map_sum id occupied (deserialize emptyWorld (instanceOf isolatedCube))
      = Inr (set isolatedCube)"
    by code_simp
  ultimately show ?thesis by simp
qed

text \<open>
  C9, as amended. For every world whose cubes have pairwise distinct reset positions,
  deserializing the output of \<^verbatim>\<open>serialize\<close> into an empty world succeeds and yields a
  well-formed world with the same cubes in the same order: identical reset positions and
  colours, and every cube standing at its reset position (the current positions of the
  serialized world are not written).
\<close>

theorem roundTrip_reset:
  assumes "distinct (map resetPosition (cubes w))"
  shows "\<exists>w'. roundTrip w = Inr w' \<and> wf_world w'
     \<and> map resetPosition (cubes w') = map resetPosition (cubes w)
     \<and> map color (cubes w') = map color (cubes w)
     \<and> map cube_p (cubes w') = map resetPosition (cubes w)"
proof -
  have d: "distinct (map cellOf (jsonCubes (serialize w)))"
    using assms by (simp only: serialize_cells)
  from deserialize_ok[OF serialize_version d] show ?thesis
    unfolding roundTrip_def serialize_cells serialize_colors by blast
qed

theorem roundTrip_reset_witness:
  "distinct (map resetPosition (cubes cornerMoved))
   \<and> map cube_p (cubes cornerMoved) = [(0, 0), (0, 1)]
   \<and> map resetPosition (cubes cornerMoved) = [(0, 0), (1, 0)]
   \<and> map_sum id (map cube_p \<circ> cubes) (roundTrip cornerMoved) = Inr [(0, 0), (1, 0)]
   \<and> map_sum id (map resetPosition \<circ> cubes) (roundTrip cornerMoved) = Inr [(0, 0), (1, 0)]
   \<and> map_sum id (map color \<circ> cubes) (roundTrip cornerMoved) = Inr [BLUE, BLUE]"
proof -
  have 1: "distinct (map resetPosition (cubes cornerMoved))" by code_simp
  have 2: "map cube_p (cubes cornerMoved) = [(0, 0), (0, 1)]" by code_simp
  have 3: "map resetPosition (cubes cornerMoved) = [(0, 0), (1, 0)]" by code_simp
  have 4: "map color (cubes cornerMoved) = [BLUE, BLUE]" by code_simp
  from roundTrip_reset[OF 1] 3 4
  have "map_sum id (map cube_p \<circ> cubes) (roundTrip cornerMoved) = Inr [(0, 0), (1, 0)]"
    "map_sum id (map resetPosition \<circ> cubes) (roundTrip cornerMoved) = Inr [(0, 0), (1, 0)]"
    "map_sum id (map color \<circ> cubes) (roundTrip cornerMoved) = Inr [BLUE, BLUE]"
    by auto
  with 1 2 3 show ?thesis by simp
qed

text \<open>
  C9 as stated fails: after a cube was added at \<open>(0, 0)\<close> and moved to \<open>(1, 0)\<close> and a second
  cube was added at \<open>(0, 0)\<close>, both cubes have the reset position \<open>(0, 0)\<close>, and deserializing
  the serialized world fails with \<open>OccupiedCell\<close>.
\<close>

theorem roundTrip_counterexample:
  "map_sum id (map resetPosition \<circ> cubes) movedWorld = Inr [(0, 0), (0, 0)]
   \<and> map_sum id (map cube_p \<circ> cubes) movedWorld = Inr [(1, 0), (0, 0)]
   \<and> map_sum id roundTrip movedWorld = Inr (Inl OccupiedCell)"
  by code_simp


text \<open>
  C6, as amended. For every cube \<open>b\<close> of a well-formed configuration of \<open>N\<close> cubes,
  \<^verbatim>\<open>bridgeCapacity(b)\<close> is \<open>N - 1\<close> minus the number of cubes reachable from the
  downmost-leftmost cube when \<open>b\<close> is deleted: the number of cubes other than \<open>b\<close> that the
  deletion of \<open>b\<close> cuts off from the root.
\<close>

theorem bridgeCapacity_unreachable:
  assumes "wf_world w" and "b \<in> set (cubes w)"
  shows "bridgeCapacity w b
     = Inr (int (length (cubes w)) - 1
            - int (card (reachableFrom (occupied w - {cube_p b}) (downmostLeftmostCell w))))"
  using assms by (rule bridgeCapacity_value)

theorem bridgeCapacity_unreachable_witness:
  "wf_world (theWorld ushape)
   \<and> cubes (theWorld ushape) ! 1 \<in> set (cubes (theWorld ushape))
   \<and> cube_p (cubes (theWorld ushape) ! 1) = (1, 0)
   \<and> bridgeCapacity (theWorld ushape) (cubes (theWorld ushape) ! 1) = Inr 2
   \<and> card (reachableFrom (occupied (theWorld ushape) - {(1, 0)})
             (downmostLeftmostCell (theWorld ushape))) = 2"
proof -
  let ?w = "theWorld ushape"
  have wf: "wf_world ?w" by (rule wf_theWorld)
  have len: "length (cubes ?w) = 5" by code_simp
  then have b: "cubes ?w ! 1 \<in> set (cubes ?w)" by simp
  have p: "cube_p (cubes ?w ! 1) = (1, 0)" by code_simp
  have v: "bridgeCapacity ?w (cubes ?w ! 1) = Inr 2" by code_simp
  from bridgeCapacity_unreachable[OF wf b] v len p
  have "card (reachableFrom (occupied ?w - {(1, 0)}) (downmostLeftmostCell ?w)) = 2"
    by simp
  with wf b p v show ?thesis by simp
qed

text \<open>
  C6 as stated fails: in the line \<open>(0, 0), (1, 0), (2, 0)\<close> with \<open>b\<close> at \<open>(1, 0)\<close> one cube is
  reachable from the root once \<open>b\<close> is deleted, so the claim gives \<open>1 - 1 = 0\<close>; the code
  returns 1.
\<close>

theorem bridgeCapacity_counterexample:
  "connected4 (occupied (theWorld line3))
   \<and> cubes (theWorld line3) ! 1 \<in> set (cubes (theWorld line3))
   \<and> cube_p (cubes (theWorld line3) ! 1) = (1, 0)
   \<and> card (reachableFrom (occupied (theWorld line3) - {(1, 0)})
             (downmostLeftmostCell (theWorld line3))) = 1
   \<and> bridgeCapacity (theWorld line3) (cubes (theWorld line3) ! 1) = Inr 1
   \<and> bridgeCapacity (theWorld line3) (cubes (theWorld line3) ! 1)
       \<noteq> Inr (int (card (reachableFrom (occupied (theWorld line3) - {(1, 0)})
                 (downmostLeftmostCell (theWorld line3)))) - 1)"
proof -
  let ?w = "theWorld line3"
  have wf: "wf_world ?w" by (rule wf_theWorld)
  have "isConnected ?w None = Inr True" by code_simp
  then have c: "connected4 (occupied ?w)"
    using isConnected_correct[OF wf, of None] by simp
  have len: "length (cubes ?w) = 3" by code_simp
  then have b: "cubes ?w ! 1 \<in> set (cubes ?w)" by simp
  have p: "cube_p (cubes ?w ! 1) = (1, 0)" by code_simp
  have v: "bridgeCapacity ?w (cubes ?w ! 1) = Inr 1" by code_simp
  from bridgeCapacity_value[OF wf b] v len p
  have r: "card (reachableFrom (occupied ?w - {(1, 0)}) (downmostLeftmostCell ?w)) = 1"
    by simp
  from c b p r v show ?thesis by simp
qed



text \<open>
  C8. In a well-formed world with a cube at \<open>from\<close>, when \<open>to\<close> cannot be reached in the move
  graph of the world without the mover, \<^verbatim>\<open>shortestMovePath\<close> throws "No move path possible";
  the world it leaves has the same occupied cells as before, and the cube at \<open>from\<close> has the
  classification (and the colour) of the cube that was removed.
\<close>

theorem shortestMovePath_unreachable:
  assumes wf: "wf_world w" and src: "getCube w from = Some cube"
    and unr: "\<not> reachable (withoutMover w from) from to"
  shows "\<exists>w'. shortestMovePath w from to = Some (w', Inl NoMovePath)
     \<and> wf_world w' \<and> occupied w' = occupied w
     \<and> (\<exists>c. getCube w' from = Some c \<and> cube_p c = from
            \<and> componentStatus c = componentStatus cube \<and> color c = color cube)"
proof -
  from shortestMovePath_unfold[OF wf src, of to] obtain w' seen where
    u: "wf_world w'" "occupied w' = occupied w"
      "getCube w' from = Some ((newCube from (color cube))\<lparr>componentStatus := componentStatus cube\<rparr>)"
      "(to \<in> seenKeys seen) = reachable (withoutMover w from) from to"
      "shortestMovePath w from to =
        (if to \<notin> seenKeys seen then Some (w', Inl NoMovePath)
         else (case reconstructPath (length seen) seen from to [] of
                 None \<Rightarrow> None
               | Some (Inl e) \<Rightarrow> Some (withoutMover w from, Inl e)
               | Some (Inr path) \<Rightarrow> Some (w', Inr path)))"
    by blast
  have "to \<notin> seenKeys seen" using u(4) unr by simp
  then have 1: "shortestMovePath w from to = Some (w', Inl NoMovePath)" using u(5) by simp
  have 2: "\<exists>c. getCube w' from = Some c \<and> cube_p c = from
            \<and> componentStatus c = componentStatus cube \<and> color c = color cube"
    unfolding u(3) by (simp add: newCube_def)
  from 1 2 u(1,2) show ?thesis by blast
qed

theorem shortestMovePath_unreachable_witness:
  "wf_world (theWorld ushape)
   \<and> map_option componentStatus (getCube (theWorld ushape) (2, 1)) = Some NONE
   \<and> \<not> reachable (withoutMover (theWorld ushape) (2, 1)) (2, 1) (5, 5)
   \<and> (\<exists>w'. shortestMovePath (theWorld ushape) (2, 1) (5, 5) = Some (w', Inl NoMovePath)
        \<and> occupied w' = {(0, 0), (1, 0), (2, 0), (0, 1), (2, 1)}
        \<and> map_option componentStatus (getCube w' (2, 1)) = Some NONE)"
proof -
  have wf: "wf_world (theWorld ushape)" by (rule wf_theWorld)
  have st: "map_option componentStatus (getCube (theWorld ushape) (2, 1)) = Some NONE"
    by code_simp
  then obtain cube where src: "getCube (theWorld ushape) (2, 1) = Some cube"
    and cst: "componentStatus cube = NONE" by auto
  have nb: "\<not> (\<exists>q \<in> set (neighborCells (5, 5)). hasCube (withoutMover (theWorld ushape) (2, 1)) q)"
    by code_simp
  have unr: "\<not> reachable (withoutMover (theWorld ushape) (2, 1)) (2, 1) (5, 5)"
    using reachable_support[of "withoutMover (theWorld ushape) (2, 1)" "(2, 1)" "(5, 5)"] nb
    by auto
  have occ: "occupied (theWorld ushape) = {(0, 0), (1, 0), (2, 0), (0, 1), (2, 1)}"
    by code_simp
  from shortestMovePath_unreachable[OF wf src unr] obtain w' c where
    r: "shortestMovePath (theWorld ushape) (2, 1) (5, 5) = Some (w', Inl NoMovePath)"
       "occupied w' = occupied (theWorld ushape)"
       "getCube w' (2, 1) = Some c" "componentStatus c = componentStatus cube"
    by blast
  have "map_option componentStatus (getCube w' (2, 1)) = Some NONE"
    using r(3,4) cst by simp
  with wf st unr r(1,2) occ show ?thesis by simp
qed

text \<open>
  C3, as amended. In a well-formed world with a cube at \<open>from\<close> whose removal leaves the cells
  of the other cubes 4-connected, when \<open>to\<close> can be reached in the move graph of the
  specification (the cells, with the moves that \<^verbatim>\<open>isValidIgnoreConnectivity\<close> accepts in the
  world without the mover), \<^verbatim>\<open>shortestMovePath\<close> yields a path of that graph from \<open>from\<close> to
  \<open>to\<close>; its length is the distance of \<open>to\<close> from \<open>from\<close> in the graph, so no path is shorter;
  and the stepper runs it to the end, each move passing \<^verbatim>\<open>isValid\<close> in the world it is executed
  in, which leaves the mover at \<open>to\<close> and every other cube where it was.
\<close>

theorem shortestMovePath_shortest:
  assumes wf: "wf_world w" and src: "getCube w from = Some cube"
    and conn: "connected4 (occupied w - {from})"
    and r: "specReachable (withoutMover w from) from to"
  shows "occupied (withoutMover w from) = occupied w - {from}
     \<and> (\<exists>w' path w''. shortestMovePath w from to = Some (w', Inr path)
          \<and> isSpecPath (withoutMover w from) from path to
          \<and> length path = specDist (withoutMover w from) from to
          \<and> (\<forall>ms. isSpecPath (withoutMover w from) from ms to \<longrightarrow> length path \<le> length ms)
          \<and> occupied w' = occupied w
          \<and> runMoves w' path = Inr w''
          \<and> occupied w'' = insert to (occupied w - {from}))"
proof -
  from shortestMovePath_unfold[OF wf src, of to] obtain w' seen where
    u: "wf_world (withoutMover w from)" "occupied (withoutMover w from) = occupied w - {from}"
      "wf_world w'" "occupied w' = occupied w"
      "seenOK (withoutMover w from) from seen"
      "(to \<in> seenKeys seen) = reachable (withoutMover w from) from to"
      "shortestMovePath w from to =
        (if to \<notin> seenKeys seen then Some (w', Inl NoMovePath)
         else (case reconstructPath (length seen) seen from to [] of
                 None \<Rightarrow> None
               | Some (Inl e) \<Rightarrow> Some (withoutMover w from, Inl e)
               | Some (Inr path) \<Rightarrow> Some (w', Inr path)))"
    by blast
  have free: "from \<notin> occupied (withoutMover w from)" unfolding u(2) by simp
  have conn1: "connected4 (occupied (withoutMover w from))" unfolding u(2) by (rule conn)
  note same = isSpecPath_isMovePath[OF u(1) conn1 free]
  have r': "reachable (withoutMover w from) from to"
    using r unfolding specReachable_reachable[OF u(1) conn1 free] .
  have k: "to \<in> seenKeys seen" using u(6) r' by simp
  from reconstructPath_found[OF u(5) k] obtain P where
    P: "reconstructPath (length seen) seen from to [] = Some (Inr P)"
       "isMovePath (withoutMover w from) from P to"
       "length P = moveDist (withoutMover w from) from to" by blast
  have 1: "shortestMovePath w from to = Some (w', Inr P)" using u(7) k P(1) by simp
  have 2: "\<forall>ms. isSpecPath (withoutMover w from) from ms to \<longrightarrow> length P \<le> length ms"
    unfolding same using moveDist_le[of "withoutMover w from" "from" _ to] P(3) by simp
  have 3: "isSpecPath (withoutMover w from) from P to" unfolding same by (rule P(2))
  have 4: "length P = specDist (withoutMover w from) from to"
    unfolding specDist_moveDist[OF u(1) conn1 free] by (rule P(3))
  have has: "from \<in> occupied w" using getCube_wf[OF wf src] wf_hasCube[OF wf] by simp
  have occ': "occupied w' = insert from (occupied (withoutMover w from))"
    unfolding u(2) u(4) using has by blast
  from runMoves_path[OF u(3) u(1) free occ' P(2)] obtain w'' where
    w'': "runMoves w' P = Inr w''" "occupied w'' = insert to (occupied (withoutMover w from))"
    by blast
  have 5: "occupied w'' = insert to (occupied w - {from})" using w''(2) u(2) by simp
  from 1 3 4 2 u(4) w''(1) 5 have
    "\<exists>w' path w''. shortestMovePath w from to = Some (w', Inr path)
          \<and> isSpecPath (withoutMover w from) from path to
          \<and> length path = specDist (withoutMover w from) from to
          \<and> (\<forall>ms. isSpecPath (withoutMover w from) from ms to \<longrightarrow> length path \<le> length ms)
          \<and> occupied w' = occupied w
          \<and> runMoves w' path = Inr w''
          \<and> occupied w'' = insert to (occupied w - {from})"
    by blast
  with u(2) show ?thesis by blast
qed

theorem shortestMovePath_shortest_witness:
  "wf_world (theWorld ushape)
   \<and> hasCube (theWorld ushape) (2, 1)
   \<and> connected4 (occupied (theWorld ushape) - {(2, 1)})
   \<and> specReachable (withoutMover (theWorld ushape) (2, 1)) (2, 1) (- 1, 1)
   \<and> occupied (withoutMover (theWorld ushape) (2, 1)) = {(0, 0), (1, 0), (2, 0), (0, 1)}
   \<and> (\<exists>w' w''. shortestMovePath (theWorld ushape) (2, 1) (- 1, 1) = Some (w', Inr ushapePath)
        \<and> specDist (withoutMover (theWorld ushape) (2, 1)) (2, 1) (- 1, 1) = 3
        \<and> runMoves w' ushapePath = Inr w''
        \<and> occupied w'' = {(0, 0), (1, 0), (2, 0), (0, 1), (- 1, 1)})"
proof -
  have wf: "wf_world (theWorld ushape)" by (rule wf_theWorld)
  have has: "hasCube (theWorld ushape) (2, 1)" by code_simp
  then obtain cube where src: "getCube (theWorld ushape) (2, 1) = Some cube"
    by (auto simp: hasCube_def)
  have "isConnected (theWorld ushape) (Some (2, 1)) = Inr True" by code_simp
  then have conn: "connected4 (occupied (theWorld ushape) - {(2, 1)})"
    using isConnected_correct[OF wf, of "Some (2, 1)"] by simp
  have "isSpecPath (withoutMover (theWorld ushape) (2, 1)) (2, 1) ushapePath (- 1, 1)"
    by code_simp
  then have r: "specReachable (withoutMover (theWorld ushape) (2, 1)) (2, 1) (- 1, 1)"
    unfolding specReachable_def by blast
  have ev: "map_option snd (shortestMovePath (theWorld ushape) (2, 1) (- 1, 1))
              = Some (Inr ushapePath)"
    by code_simp
  have occ: "occupied (theWorld ushape) = {(0, 0), (1, 0), (2, 0), (0, 1), (2, 1)}"
    by code_simp
  from shortestMovePath_shortest[OF wf src conn r] obtain w' path w'' where
    o1: "occupied (withoutMover (theWorld ushape) (2, 1)) = occupied (theWorld ushape) - {(2, 1)}"
    and s: "shortestMovePath (theWorld ushape) (2, 1) (- 1, 1) = Some (w', Inr path)"
       "length path = specDist (withoutMover (theWorld ushape) (2, 1)) (2, 1) (- 1, 1)"
       "runMoves w' path = Inr w''"
       "occupied w'' = insert (- 1, 1) (occupied (theWorld ushape) - {(2, 1)})"
    by blast
  have p: "path = ushapePath" using ev s(1) by simp
  have d: "specDist (withoutMover (theWorld ushape) (2, 1)) (2, 1) (- 1, 1) = 3"
    using s(2) unfolding p by (simp add: ushapePath_def)
  have o: "occupied w'' = {(0, 0), (1, 0), (2, 0), (0, 1), (- 1, 1)}"
    unfolding s(4) occ by auto
  have o1': "occupied (withoutMover (theWorld ushape) (2, 1)) = {(0, 0), (1, 0), (2, 0), (0, 1)}"
    unfolding o1 occ by auto
  from wf has conn r o1' s(1)[unfolded p] d s(3)[unfolded p] o show ?thesis by blast
qed

text \<open>
  C3 as stated fails for a mover that is a cut cube. The U-shape is 4-connected, the cell
  \<open>(1, 1)\<close> is empty and one move away from \<open>(1, 0)\<close> in the move graph of the specification
  (the move N has the cubes at \<open>(0, 0)\<close> and \<open>(0, 1)\<close> to slide along), yet
  \<^verbatim>\<open>shortestMovePath\<close> yields no move and throws "No move path possible": without the cube at
  \<open>(1, 0)\<close> the other cubes are not connected, and \<^verbatim>\<open>validMovesFrom\<close> then returns no move.
\<close>

theorem shortestMovePath_cut_mover_counterexample:
  "connected4 (occupied (theWorld ushape))
   \<and> hasCube (theWorld ushape) (1, 0)
   \<and> \<not> hasCube (theWorld ushape) (1, 1)
   \<and> occupied (withoutMover (theWorld ushape) (1, 0)) = {(0, 0), (2, 0), (0, 1), (2, 1)}
   \<and> isSpecPath (withoutMover (theWorld ushape) (1, 0)) (1, 0) cutMove (1, 1)
   \<and> specReachable (withoutMover (theWorld ushape) (1, 0)) (1, 0) (1, 1)
   \<and> validMovesFrom (withoutMover (theWorld ushape) (1, 0)) (1, 0) = Inr []
   \<and> map_option snd (shortestMovePath (theWorld ushape) (1, 0) (1, 1)) = Some (Inl NoMovePath)"
proof -
  have wf: "wf_world (theWorld ushape)" by (rule wf_theWorld)
  have "isConnected (theWorld ushape) None = Inr True" by code_simp
  then have 1: "connected4 (occupied (theWorld ushape))"
    using isConnected_correct[OF wf, of None] by simp
  have 2: "hasCube (theWorld ushape) (1, 0)" by code_simp
  have 3: "\<not> hasCube (theWorld ushape) (1, 1)" by code_simp
  have 4: "occupied (withoutMover (theWorld ushape) (1, 0)) = {(0, 0), (2, 0), (0, 1), (2, 1)}"
    by code_simp
  have 5: "isSpecPath (withoutMover (theWorld ushape) (1, 0)) (1, 0) cutMove (1, 1)"
    by code_simp
  then have 6: "specReachable (withoutMover (theWorld ushape) (1, 0)) (1, 0) (1, 1)"
    unfolding specReachable_def by blast
  have 7: "validMovesFrom (withoutMover (theWorld ushape) (1, 0)) (1, 0) = Inr []"
    by code_simp
  have 8: "map_option snd (shortestMovePath (theWorld ushape) (1, 0) (1, 1))
             = Some (Inl NoMovePath)"
    by code_simp
  from 1 2 3 4 5 6 7 8 show ?thesis by blast
qed

end
